theory Spec2Isabelle
  imports Main "HOL-Library.Word" "HOL-Library.List_Lexorder" "HOL-Library.Char_ord"
    "HOL-Library.Multiset"
begin

unbundle bit_operations_syntax

section \<open>Data model\<close>

text \<open>
  The LUT stitcher (the \<^verbatim>\<open>stitcher\<close> pass) works on Yosys netlist objects. The kernel
  types it reads are modelled as plain values:
  \<^item> \<^verbatim>\<open>RTLIL::State\<close> is the enumeration of bit values;
  \<^item> \<^verbatim>\<open>RTLIL::SigBit\<close> is either a constant state or one bit of a wire (the number
    identifies the canonical wire bit);
  \<^item> \<^verbatim>\<open>RTLIL::Const\<close> is the vector of its bits, bit 0 first;
  \<^item> \<^verbatim>\<open>RTLIL::IdString\<close> is a string.
\<close>

datatype State = S0 | S1 | Sx | Sz | Sa | Sm

datatype SigBit = SigConst State | SigWire nat

type_synonym Const = "State list"

type_synonym IdString = string

datatype error = OutOfRange

text \<open>
  \<^verbatim>\<open>struct LutInfo\<close>. The field \<^verbatim>\<open>cell_ptr\<close> is only used as the identity of the cell
  and to read the cell's name, so it is modelled by that name (names are unique inside a
  module). \<^verbatim>\<open>ordered_inputs\<close> is a \<^verbatim>\<open>std::map<string, SigBit>\<close>: an association list in
  ascending key order. The fields \<^verbatim>\<open>size\<close> and \<^verbatim>\<open>output\<close> are called \<open>size_lut\<close> and \<open>output_sig\<close> here.
\<close>

record LutInfo =
  cell_ptr :: IdString
  size_lut :: int
  ordered_inputs :: "(string \<times> SigBit) list"
  output_sig :: SigBit
  init_val :: Const
  is_merged :: bool

subsection \<open>The kernel's hash set\<close>

text \<open>
  \<^verbatim>\<open>hashlib::pool\<close> keeps its entries in a vector in insertion order, and its iterator
  walks that vector from the last entry to the first. A pool is modelled by the list of
  its entries in insertion order.
\<close>

type_synonym 'a pool = "'a list"

definition pool_insert :: "'a pool \<Rightarrow> 'a \<Rightarrow> 'a pool" where
  "pool_insert p x = (if x \<in> set p then p else p @ [x])"

definition pool_count :: "'a pool \<Rightarrow> 'a \<Rightarrow> bool" where
  "pool_count p x = (x \<in> set p)"

definition pool_iter :: "'a pool \<Rightarrow> 'a list" where
  "pool_iter p = rev p"

definition pool_insert_all :: "'a pool \<Rightarrow> 'a list \<Rightarrow> 'a pool" where
  "pool_insert_all p xs = foldl pool_insert p xs"

section \<open>TruthTableFusion: \<^verbatim>\<open>calculate_new_init\<close>\<close>

definition lut_has_input :: "LutInfo \<Rightarrow> SigBit \<Rightarrow> bool" where
  "lut_has_input lut input_sig = (input_sig \<in> set (map snd (ordered_inputs lut)))"

text \<open>\<^verbatim>\<open>std::find\<close> followed by \<^verbatim>\<open>std::distance\<close>: the first position of a value.\<close>

fun find_pos :: "'a list \<Rightarrow> 'a \<Rightarrow> nat option" where
  "find_pos [] x = None"
| "find_pos (y # ys) x =
     (if y = x then Some 0 else (case find_pos ys x of None \<Rightarrow> None | Some k \<Rightarrow> Some (Suc k)))"

text \<open>
  The inner loop of the Z5 half: it walks the ports of the source LUT, \<open>bit_pos\<close> doubling
  at every port, and adds \<open>bit_pos\<close> when the port's signal sits in a shared slot whose
  bit of \<open>i\<close> is set.
\<close>

fun addr_z5 :: "SigBit list \<Rightarrow> nat \<Rightarrow> (string \<times> SigBit) list \<Rightarrow> nat \<Rightarrow> nat \<Rightarrow> nat" where
  "addr_z5 shared_inputs i [] bit_pos addr = addr"
| "addr_z5 shared_inputs i (pair # ps) bit_pos addr =
     addr_z5 shared_inputs i ps (2 * bit_pos)
       (case find_pos shared_inputs (snd pair) of
          Some shared_idx \<Rightarrow> if bit i shared_idx then addr + bit_pos else addr
        | None \<Rightarrow> addr)"

text \<open>The inner loop of the Z half: a port equal to the selector counts as 1.\<close>

fun addr_z :: "SigBit list \<Rightarrow> SigBit \<Rightarrow> nat \<Rightarrow> (string \<times> SigBit) list \<Rightarrow> nat \<Rightarrow> nat \<Rightarrow> nat" where
  "addr_z shared_inputs sel_bit i [] bit_pos addr = addr"
| "addr_z shared_inputs sel_bit i (pair # ps) bit_pos addr =
     addr_z shared_inputs sel_bit i ps (2 * bit_pos)
       (case find_pos shared_inputs (snd pair) of
          Some shared_idx \<Rightarrow> if bit i shared_idx then addr + bit_pos else addr
        | None \<Rightarrow> if snd pair = sel_bit then addr + bit_pos else addr)"

definition init_at :: "Const \<Rightarrow> nat \<Rightarrow> State" where
  "init_at init addr = (if addr < length init then init ! addr else S0)"

text \<open>
  \<^verbatim>\<open>calculate_new_init\<close> returns the fused table together with the two output targets
  \<open>z_out_sig\<close> and \<open>z5_out_sig\<close> (reference parameters in the source). It reads
  \<^verbatim>\<open>new_inputs_vec[0..4]\<close>; a shorter vector is an out-of-range read.
\<close>

definition calculate_new_init ::
  "LutInfo \<Rightarrow> LutInfo \<Rightarrow> SigBit list \<Rightarrow> SigBit \<Rightarrow> error + (Const \<times> SigBit \<times> SigBit)" where
  "calculate_new_init lut_a lut_b new_inputs_vec sel_bit =
     (let lut_for_z5 = (if lut_has_input lut_a sel_bit then lut_b else lut_a);
          lut_for_z_sel1 = (if lut_has_input lut_a sel_bit then lut_a else lut_b);
          z5_out_sig = output_sig lut_for_z5;
          z_out_sig = output_sig lut_for_z_sel1
      in if length new_inputs_vec < 5 then Inl OutOfRange
         else
           (let shared_inputs = take 5 new_inputs_vec;
                z5_bits = map (\<lambda>i. init_at (init_val lut_for_z5)
                                 (addr_z5 shared_inputs i (ordered_inputs lut_for_z5) 1 0)) [0..<32];
                z_bits = map (\<lambda>i. init_at (init_val lut_for_z_sel1)
                                 (addr_z shared_inputs sel_bit i (ordered_inputs lut_for_z_sel1) 1 0)) [0..<32]
            in Inr (z5_bits @ z_bits, z_out_sig, z5_out_sig)))"


section \<open>ABSORB legality: \<^verbatim>\<open>CanLut6AbsorbLutS\<close>\<close>

text \<open>\<^verbatim>\<open>uint64_t\<close> is a 64-bit word. \<^verbatim>\<open>const_to_uint64\<close> sets bit \<open>i\<close> for every \<open>S1\<close> among the first 64 bits.\<close>

definition const_to_uint64 :: "Const \<Rightarrow> 64 word" where
  "const_to_uint64 c =
     foldl (\<lambda>val i. if c ! i = S1 then val OR push_bit i 1 else val) 0 [0..<min (length c) 64]"

definition masks :: "64 word list" where
  "masks = [0xAAAAAAAAAAAAAAAA, 0xCCCCCCCCCCCCCCCC, 0xF0F0F0F0F0F0F0F0,
            0xFF00FF00FF00FF00, 0xFFFF0000FFFF0000, 0xFFFFFFFF00000000]"

text \<open>
  \<^verbatim>\<open>get_input_mask\<close>: the template of the first port carrying \<open>target_sig\<close>, 0 when no port
  does. The table has six entries; every caller passes the ports of a LUT of size 6, which
  has at most six of them (a seventh port would read past the table in the source).
\<close>

fun get_input_mask_from :: "nat \<Rightarrow> (string \<times> SigBit) list \<Rightarrow> SigBit \<Rightarrow> 64 word" where
  "get_input_mask_from input_idx [] target_sig = 0"
| "get_input_mask_from input_idx (pair # ps) target_sig =
     (if snd pair = target_sig then masks ! input_idx
      else get_input_mask_from (Suc input_idx) ps target_sig)"

definition get_input_mask :: "(string \<times> SigBit) list \<Rightarrow> SigBit \<Rightarrow> 64 word" where
  "get_input_mask ordered_inputs_6 target_sig = get_input_mask_from 0 ordered_inputs_6 target_sig"

text \<open>The loop over the ports of \<open>lut_s\<close> that builds \<open>target_mask\<close> for row \<open>i\<close>.\<close>

fun target_mask_loop ::
  "(string \<times> SigBit) list \<Rightarrow> nat \<Rightarrow> (string \<times> SigBit) list \<Rightarrow> nat \<Rightarrow> 64 word \<Rightarrow> 64 word" where
  "target_mask_loop inputs_6 i [] s_input_idx target_mask = target_mask"
| "target_mask_loop inputs_6 i (p_s # ps) s_input_idx target_mask =
     (let lut6_mask = get_input_mask inputs_6 (snd p_s)
      in target_mask_loop inputs_6 i ps (Suc s_input_idx)
           (if bit i s_input_idx then target_mask AND lut6_mask
            else target_mask AND NOT lut6_mask))"

definition s_expanded_tt :: "LutInfo \<Rightarrow> LutInfo \<Rightarrow> 64 word" where
  "s_expanded_tt lut_6 lut_s =
     foldl (\<lambda>tt i. if bit (const_to_uint64 (init_val lut_s)) i
                    then tt OR target_mask_loop (ordered_inputs lut_6) i (ordered_inputs lut_s) 0 (- 1)
                    else tt)
           0 [0..<2 ^ nat (size_lut lut_s)]"

definition potential_sel_bits :: "LutInfo \<Rightarrow> LutInfo \<Rightarrow> SigBit list" where
  "potential_sel_bits lut_6 lut_s =
     (let inputs_s = pool_insert_all [] (map snd (ordered_inputs lut_s))
      in filter (\<lambda>sig. \<not> pool_count inputs_s sig) (map snd (ordered_inputs lut_6)))"

definition sel_is_0_match :: "LutInfo \<Rightarrow> LutInfo \<Rightarrow> SigBit \<Rightarrow> bool" where
  "sel_is_0_match lut_6 lut_s found_sel_bit =
     (let sel_mask = get_input_mask (ordered_inputs lut_6) found_sel_bit;
          tt_6 = const_to_uint64 (init_val lut_6)
      in (tt_6 AND NOT sel_mask) = (s_expanded_tt lut_6 lut_s AND NOT sel_mask))"

definition sel_is_1_match :: "LutInfo \<Rightarrow> LutInfo \<Rightarrow> SigBit \<Rightarrow> bool" where
  "sel_is_1_match lut_6 lut_s found_sel_bit =
     (let sel_mask = get_input_mask (ordered_inputs lut_6) found_sel_bit;
          tt_6 = const_to_uint64 (init_val lut_6)
      in (tt_6 AND sel_mask) = (s_expanded_tt lut_6 lut_s AND sel_mask))"

text \<open>
  \<^verbatim>\<open>CanLut6AbsorbLutS\<close> returns a flag and, through a reference, the selector it found.
  The model returns \<open>Some found_sel_bit\<close> for \<^verbatim>\<open>true\<close> and \<open>None\<close> for \<^verbatim>\<open>false\<close>.
\<close>

definition CanLut6AbsorbLutS :: "LutInfo \<Rightarrow> LutInfo \<Rightarrow> SigBit option" where
  "CanLut6AbsorbLutS lut_6 lut_s =
     (let sels = potential_sel_bits lut_6 lut_s
      in if length sels \<noteq> 1 then None
         else (let found_sel_bit = sels ! 0
               in if sel_is_0_match lut_6 lut_s found_sel_bit \<or> sel_is_1_match lut_6 lut_s found_sel_bit
                  then Some found_sel_bit else None))"

section \<open>CandidateSearch\<close>

datatype MergeType = SHARED_INPUTS | LUT6_ABSORB

record MergeCandidate =
  idx_a :: nat
  idx_b :: nat
  score :: int
  union_inputs :: "SigBit pool"
  type_m :: MergeType
  discovered_sel_bit :: SigBit

text \<open>The pool both searches fill with the inputs of \<open>lut_a\<close>, then those of \<open>lut_b\<close>.\<close>

definition inputs_pool :: "LutInfo \<Rightarrow> SigBit pool" where
  "inputs_pool lut = pool_insert_all [] (map snd (ordered_inputs lut))"

definition current_union_inputs :: "LutInfo \<Rightarrow> LutInfo \<Rightarrow> SigBit pool" where
  "current_union_inputs lut_a lut_b =
     pool_insert_all (pool_insert_all [] (map snd (ordered_inputs lut_a))) (map snd (ordered_inputs lut_b))"

text \<open>
  The arithmetic on \<^verbatim>\<open>int\<close> and \<^verbatim>\<open>size_t\<close> in the scores is exact: sizes come from one
  character of the cell type and pools hold at most that many signals, so nothing wraps.
\<close>

definition shared_count :: "LutInfo \<Rightarrow> LutInfo \<Rightarrow> int" where
  "shared_count lut_a lut_b =
     (size_lut lut_a + size_lut lut_b) - int (length (current_union_inputs lut_a lut_b))"

text \<open>The lambda \<^verbatim>\<open>check_shared_inputs\<close> of the layered search; it returns what it pushes.\<close>

definition check_shared_inputs :: "LutInfo list \<Rightarrow> nat \<Rightarrow> nat \<Rightarrow> MergeCandidate list" where
  "check_shared_inputs luts i j =
     (let lut_a = luts ! i; lut_b = luts ! j;
          u = current_union_inputs lut_a lut_b
      in if length u \<le> 5 then
           (let shared_inputs = (size_lut lut_a + size_lut lut_b) - int (length u)
            in if shared_inputs \<ge> 1 then
                 [\<lparr>idx_a = i, idx_b = j, score = shared_inputs * 100 - int (length u),
                   union_inputs = u, type_m = SHARED_INPUTS, discovered_sel_bit = SigConst Sx\<rparr>]
               else [])
         else [])"

definition is_subset :: "LutInfo \<Rightarrow> LutInfo \<Rightarrow> bool" where
  "is_subset lut_6 lut_s =
     (\<forall>sig_s \<in> set (pool_iter (inputs_pool lut_s)). pool_count (inputs_pool lut_6) sig_s)"

text \<open>The lambda \<^verbatim>\<open>check_lut6_absorb\<close> of the layered search.\<close>

definition check_lut6_absorb :: "LutInfo list \<Rightarrow> nat \<Rightarrow> nat \<Rightarrow> MergeCandidate list" where
  "check_lut6_absorb luts idx_6 idx_s =
     (let lut_6 = luts ! idx_6; lut_s = luts ! idx_s
      in if size_lut lut_6 \<noteq> 6 \<or> size_lut lut_s \<ge> 6 then []
         else if \<not> is_subset lut_6 lut_s then []
         else (case CanLut6AbsorbLutS lut_6 lut_s of
                 None \<Rightarrow> []
               | Some sel_bit \<Rightarrow>
                   [\<lparr>idx_a = idx_6, idx_b = idx_s, score = 10000 + size_lut lut_s * 100,
                     union_inputs = inputs_pool lut_6, type_m = LUT6_ABSORB,
                     discovered_sel_bit = sel_bit\<rparr>]))"

text \<open>
  The exhaustive search. The body of its first double loop (pairs \<open>i < j\<close>) and the body of
  its second (a LUT of size 6 at \<open>i\<close>, any other LUT at \<open>j\<close>), each returning what it pushes.
\<close>

definition global_shared_body :: "LutInfo list \<Rightarrow> nat \<Rightarrow> nat \<Rightarrow> MergeCandidate list" where
  "global_shared_body luts i j =
     (let lut_a = luts ! i; lut_b = luts ! j;
          u = current_union_inputs lut_a lut_b;
          shared_inputs = (size_lut lut_a + size_lut lut_b) - int (length u)
      in if length u \<le> 6 \<and> shared_inputs \<le> 5 then
           [\<lparr>idx_a = i, idx_b = j, score = shared_inputs * 100 - int (length u),
             union_inputs = u, type_m = SHARED_INPUTS, discovered_sel_bit = SigConst Sx\<rparr>]
         else [])"

definition global_absorb_body :: "LutInfo list \<Rightarrow> nat \<Rightarrow> nat \<Rightarrow> MergeCandidate list" where
  "global_absorb_body luts i j =
     (if size_lut (luts ! i) \<noteq> 6 then []
      else if i = j then []
      else (let lut_6 = luts ! i; lut_s = luts ! j
            in if \<not> is_subset lut_6 lut_s then []
               else (case CanLut6AbsorbLutS lut_6 lut_s of
                       None \<Rightarrow> []
                     | Some sel_bit \<Rightarrow>
                         [\<lparr>idx_a = i, idx_b = j, score = 10000 + size_lut lut_s * 100,
                           union_inputs = inputs_pool lut_6, type_m = LUT6_ABSORB,
                           discovered_sel_bit = sel_bit\<rparr>])))"

text \<open>\<^verbatim>\<open>FindMergeCandidates_Global\<close>: the candidates in the order they are pushed.\<close>

definition FindMergeCandidates_Global :: "LutInfo list \<Rightarrow> MergeCandidate list" where
  "FindMergeCandidates_Global luts =
     concat (map (\<lambda>i. concat (map (\<lambda>j. global_shared_body luts i j) [Suc i..<length luts]))
                 [0..<length luts])
     @ concat (map (\<lambda>i. concat (map (\<lambda>j. global_absorb_body luts i j) [0..<length luts]))
                   [0..<length luts])"

text \<open>
  \<^verbatim>\<open>FindMergeCandidates_Layered\<close> reads the global \<^verbatim>\<open>level_to_lut_indices\<close>, a
  \<^verbatim>\<open>std::map<int, vector<int>>\<close>: an association list in ascending level order.
\<close>

definition layered_pair :: "LutInfo list \<Rightarrow> nat \<Rightarrow> nat \<Rightarrow> MergeCandidate list" where
  "layered_pair luts a b =
     check_shared_inputs luts a b @ check_lut6_absorb luts a b @ check_lut6_absorb luts b a"

definition FindMergeCandidates_Layered ::
  "LutInfo list \<Rightarrow> (int \<times> nat list) list \<Rightarrow> MergeCandidate list" where
  "FindMergeCandidates_Layered luts level_to_lut_indices =
     concat (map (\<lambda>(level, luts_in_current_level).
        concat (map (\<lambda>i. concat (map (\<lambda>j. layered_pair luts (luts_in_current_level ! i)
                                                         (luts_in_current_level ! j))
                                      [Suc i..<length luts_in_current_level]))
                    [0..<length luts_in_current_level])
        @ (case map_of level_to_lut_indices (level + 1) of
             None \<Rightarrow> []
           | Some luts_in_next_level \<Rightarrow>
               concat (map (\<lambda>lut_idx_curr.
                         concat (map (\<lambda>lut_idx_next. layered_pair luts lut_idx_curr lut_idx_next)
                                     luts_in_next_level))
                       luts_in_current_level)))
      level_to_lut_indices)"


section \<open>TopologyLeveler: \<^verbatim>\<open>NumberLutsByLevel\<close>\<close>

text \<open>
  \<^verbatim>\<open>CollectLuts\<close> pushes one record per cell, so the \<^verbatim>\<open>Cell*\<close> keys of the dictionaries
  \<^verbatim>\<open>lut_graph\<close>, \<^verbatim>\<open>lut_in_degree\<close> and \<^verbatim>\<open>lut_levels\<close> are pairwise different and stand in
  one-to-one correspondence with the positions in \<open>luts\<close>. A cell is written as its position
  and each dictionary as a list indexed by position; \<^verbatim>\<open>lut_levels\<close>, which may lack a key,
  holds options. \<^verbatim>\<open>output_sig_to_lut\<close> is filled in list order, so for a signal driven by
  several LUTs the last one stays.
\<close>

definition output_sig_to_lut :: "LutInfo list \<Rightarrow> SigBit \<Rightarrow> nat option" where
  "output_sig_to_lut luts sig =
     (case filter (\<lambda>i. output_sig (luts ! i) = sig) (rev [0..<length luts]) of
        [] \<Rightarrow> None
      | i # _ \<Rightarrow> Some i)"

text \<open>The loop over the inputs of \<open>src_lut\<close>: a new edge raises the in-degree of \<open>src_lut\<close>.\<close>

fun add_edges ::
  "(SigBit \<Rightarrow> nat option) \<Rightarrow> nat \<Rightarrow> SigBit list \<Rightarrow> nat pool list \<times> int list \<Rightarrow> nat pool list \<times> int list" where
  "add_edges drv src [] (lut_graph, lut_in_degree) = (lut_graph, lut_in_degree)"
| "add_edges drv src (input_sig # sigs) (lut_graph, lut_in_degree) =
     (case drv input_sig of
        None \<Rightarrow> add_edges drv src sigs (lut_graph, lut_in_degree)
      | Some driver_lut_ptr \<Rightarrow>
          if pool_count (lut_graph ! driver_lut_ptr) src
          then add_edges drv src sigs (lut_graph, lut_in_degree)
          else add_edges drv src sigs
                 (lut_graph[driver_lut_ptr := pool_insert (lut_graph ! driver_lut_ptr) src],
                  lut_in_degree[src := lut_in_degree ! src + 1]))"

definition build_graph :: "LutInfo list \<Rightarrow> nat pool list \<times> int list" where
  "build_graph luts =
     foldl (\<lambda>(lut_graph, lut_in_degree) src.
              add_edges (output_sig_to_lut luts) src (map snd (ordered_inputs (luts ! src)))
                (lut_graph, lut_in_degree[src := 0]))
           (replicate (length luts) [], replicate (length luts) 0)
           [0..<length luts]"

record level_state =
  q :: "nat list"
  lut_in_degree :: "int list"
  lut_levels :: "int option list"
  processed_count :: nat

text \<open>
  The loop over the downstream LUTs of the dequeued one. \<^verbatim>\<open>lut_in_degree.at\<close> raises
  \<^verbatim>\<open>std::out_of_range\<close> on a missing key.
\<close>

fun relax :: "int \<Rightarrow> nat list \<Rightarrow> level_state \<Rightarrow> error + level_state" where
  "relax current_level [] s = Inr s"
| "relax current_level (downstream # ds) s =
     (if downstream \<ge> length (lut_levels s) \<or> downstream \<ge> length (lut_in_degree s) then Inl OutOfRange
      else
        (let new_level = current_level + 1;
             levels' = (case lut_levels s ! downstream of
                          None \<Rightarrow> (lut_levels s)[downstream := Some new_level]
                        | Some l \<Rightarrow> if new_level > l then (lut_levels s)[downstream := Some new_level]
                                    else lut_levels s);
             deg' = (lut_in_degree s)[downstream := lut_in_degree s ! downstream - 1];
             q' = (if deg' ! downstream = 0 then q s @ [downstream] else q s)
         in relax current_level ds (s\<lparr>q := q', lut_in_degree := deg', lut_levels := levels'\<rparr>)))"

definition queue_measure :: "level_state \<Rightarrow> nat" where
  "queue_measure s = length (q s) + sum_list (map nat (lut_in_degree s))"

lemma relax_measure:
  "relax cl ds s = Inr s' \<Longrightarrow> queue_measure s' \<le> queue_measure s"
proof (induction ds arbitrary: s)
  case Nil
  then show ?case by simp
next
  case (Cons d ds)
  let ?deg = "(lut_in_degree s)[d := lut_in_degree s ! d - 1]"
  from Cons.prems have inrange: "d < length (lut_levels s)" "d < length (lut_in_degree s)"
    by (auto split: if_splits)
  obtain lv where step: "relax cl ds (s\<lparr>q := (if ?deg ! d = 0 then q s @ [d] else q s),
      lut_in_degree := ?deg, lut_levels := lv\<rparr>) = Inr s'"
    using Cons.prems inrange by (simp add: Let_def)
  have "nat (lut_in_degree s ! d) \<in> set (map nat (lut_in_degree s))"
    using inrange(2) by simp
  then have "nat (lut_in_degree s ! d) \<le> sum_list (map nat (lut_in_degree s))"
    by (simp add: member_le_sum_list)
  then have sum_upd: "sum_list (map nat ?deg) + nat (lut_in_degree s ! d)
      = sum_list (map nat (lut_in_degree s)) + nat (lut_in_degree s ! d - 1)"
    using inrange(2) by (simp add: map_update sum_list_update)
  have "queue_measure (s\<lparr>q := (if ?deg ! d = 0 then q s @ [d] else q s),
      lut_in_degree := ?deg, lut_levels := lv\<rparr>) \<le> queue_measure s"
    using sum_upd inrange(2) by (auto simp: queue_measure_def)
  with Cons.IH [OF step] show ?case by simp
qed

text \<open>
  The \<^verbatim>\<open>while (!q.empty())\<close> loop. \<^verbatim>\<open>lut_levels.at\<close> and \<^verbatim>\<open>lut_graph.at\<close> raise on a
  missing key.
\<close>

function kahn_loop :: "nat pool list \<Rightarrow> level_state \<Rightarrow> error + level_state" where
  "kahn_loop lut_graph s =
     (case q s of
        [] \<Rightarrow> Inr s
      | current_lut_ptr # rest \<Rightarrow>
          if current_lut_ptr \<ge> length (lut_levels s) \<or> current_lut_ptr \<ge> length lut_graph
          then Inl OutOfRange
          else (case lut_levels s ! current_lut_ptr of
                  None \<Rightarrow> Inl OutOfRange
                | Some current_level \<Rightarrow>
                    (case relax current_level (pool_iter (lut_graph ! current_lut_ptr))
                            (s\<lparr>q := rest, processed_count := processed_count s + 1\<rparr>) of
                       Inl e \<Rightarrow> Inl e
                     | Inr s' \<Rightarrow> kahn_loop lut_graph s')))"
  by pat_completeness auto
termination
proof (relation "measure (\<lambda>(g, s). queue_measure s)", goal_cases)
  case 1
  show ?case by simp
next
  case (2 lut_graph s cur rest cl s')
  then have "relax cl (pool_iter (lut_graph ! cur))
      (s\<lparr>q := rest, processed_count := processed_count s + 1\<rparr>) = Inr s'"
    by simp
  from relax_measure [OF this] 2(1) show ?case
    by (simp add: queue_measure_def)
qed

declare kahn_loop.simps [simp del]

text \<open>The seeding loop: LUTs of in-degree 0 enter the queue at level 0, in list order.\<close>

definition seed_state :: "int list \<Rightarrow> level_state" where
  "seed_state deg =
     foldl (\<lambda>s i. if deg ! i = 0
                   then s\<lparr>q := q s @ [i], lut_levels := (lut_levels s)[i := Some 0]\<rparr>
                   else s)
           \<lparr>q = [], lut_in_degree = deg, lut_levels = replicate (length deg) None, processed_count = 0\<rparr>
           [0..<length deg]"

text \<open>
  \<^verbatim>\<open>NumberLutsByLevel\<close> leaves its result in the global \<^verbatim>\<open>lut_levels\<close>; the model returns
  it, with the processed count and whether \<^verbatim>\<open>log_warning\<close> was called.
\<close>

record leveling =
  levels :: "int option list"
  processed :: nat
  loop_warning :: bool

definition NumberLutsByLevel :: "LutInfo list \<Rightarrow> error + leveling" where
  "NumberLutsByLevel luts =
     (let (lut_graph, deg) = build_graph luts
      in case kahn_loop lut_graph (seed_state deg) of
           Inl e \<Rightarrow> Inl e
         | Inr s \<Rightarrow> Inr \<lparr>levels = lut_levels s, processed = processed_count s,
                         loop_warning = (processed_count s \<noteq> length luts)\<rparr>)"


section \<open>MergePlanner: \<^verbatim>\<open>PlanMerges\<close>\<close>

text \<open>
  \<^verbatim>\<open>struct MergePlan\<close>; its field \<^verbatim>\<open>init_val\<close> is called \<open>init_val_plan\<close> here.
  \<^verbatim>\<open>port_connections\<close> is written in the order the source assigns its eight keys.
\<close>

record MergePlan =
  new_cell_name :: IdString
  init_val_plan :: Const
  port_connections :: "(IdString \<times> SigBit) list"
  cell_a_to_remove :: IdString
  cell_b_to_remove :: IdString

text \<open>\<^verbatim>\<open>std::to_string\<close> on a non-negative number, and the identifier \<^verbatim>\<open>"\\" + s\<close>.\<close>

fun to_string :: "nat \<Rightarrow> string" where
  "to_string n =
     (if n < 10 then [char_of (48 + n)] else to_string (n div 10) @ [char_of (48 + n mod 10)])"

declare to_string.simps [simp del]

definition escaped :: "string \<Rightarrow> IdString" where
  "escaped s = CHR 0x5C # s"

text \<open>\<^verbatim>\<open>iter_swap(sel_it, new_inputs_vec.end() - 1)\<close>.\<close>

definition swap_with_last :: "'a list \<Rightarrow> nat \<Rightarrow> 'a list" where
  "swap_with_last v k = v[k := v ! (length v - 1), length v - 1 := v ! k]"

text \<open>The two branches of \<^verbatim>\<open>PlanMerges\<close> that build \<open>new_inputs_vec\<close> and \<open>sel_bit\<close>.\<close>

definition new_inputs_of :: "LutInfo \<Rightarrow> LutInfo \<Rightarrow> MergeCandidate \<Rightarrow> SigBit list \<times> SigBit" where
  "new_inputs_of lut_a lut_b best_pair =
     (if type_m best_pair = SHARED_INPUTS then
        (let v = pool_iter (union_inputs best_pair);
             padded = v @ replicate (5 - length v) (SigConst S0);
             sel_bit = SigConst S1
         in (padded @ [sel_bit], sel_bit))
      else
        (let lut_6 = (if size_lut lut_a = 6 then lut_a else lut_b);
             v = map snd (ordered_inputs lut_6);
             sel_bit = discovered_sel_bit best_pair
         in (case find_pos v sel_bit of
               Some k \<Rightarrow> (swap_with_last v k, sel_bit)
             | None \<Rightarrow> (v, sel_bit))))"

text \<open>
  One turn of the \<^verbatim>\<open>while\<close> loop on the popped candidate: the LUT list with its flags, and
  the plan pushed (none when the candidate is skipped). \<open>uniquify\<close> is \<^verbatim>\<open>module->uniquify\<close>
  and \<open>log_id\<close> the kernel's \<^verbatim>\<open>log_id\<close>; indexing \<open>luts\<close> or \<open>new_inputs_vec\<close> out of range
  is the error. The references \<open>lut_a\<close> and \<open>lut_b\<close> point into \<open>luts\<close>.
\<close>

definition plan_candidate ::
  "(IdString \<Rightarrow> IdString) \<Rightarrow> (IdString \<Rightarrow> string) \<Rightarrow> LutInfo list \<Rightarrow> MergeCandidate
     \<Rightarrow> error + (LutInfo list \<times> MergePlan list)" where
  "plan_candidate uniquify log_id luts best_pair =
     (if idx_a best_pair \<ge> length luts \<or> idx_b best_pair \<ge> length luts then Inl OutOfRange
      else if is_merged (luts ! idx_a best_pair) \<or> is_merged (luts ! idx_b best_pair) then Inr (luts, [])
      else
        (let luts1 = luts[idx_a best_pair := (luts ! idx_a best_pair)\<lparr>is_merged := True\<rparr>];
             luts2 = luts1[idx_b best_pair := (luts1 ! idx_b best_pair)\<lparr>is_merged := True\<rparr>];
             lut_a = luts2 ! idx_a best_pair;
             lut_b = luts2 ! idx_b best_pair;
             (new_inputs_vec, sel_bit) = new_inputs_of lut_a lut_b best_pair
         in case calculate_new_init lut_a lut_b new_inputs_vec sel_bit of
              Inl e \<Rightarrow> Inl e
            | Inr (new_init, z_out_target, z5_out_target) \<Rightarrow>
                if length new_inputs_vec < 6 then Inl OutOfRange
                else
                  (let new_name_str = log_id (cell_ptr lut_a) @ ''_'' @ log_id (cell_ptr lut_b) @ ''_merged'';
                       plan = \<lparr>new_cell_name = uniquify (escaped new_name_str),
                               init_val_plan = new_init,
                               port_connections =
                                 map (\<lambda>k. (escaped (''I'' @ to_string k), new_inputs_vec ! k)) [0..<6]
                                 @ [(escaped ''Z'', z_out_target), (escaped ''Z5'', z5_out_target)],
                               cell_a_to_remove = cell_ptr lut_a,
                               cell_b_to_remove = cell_ptr lut_b\<rparr>
                   in Inr (luts2, [plan]))))"

text \<open>
  The loop. \<open>candidates\<close> lists the queue's content in the order \<^verbatim>\<open>top\<close>/\<^verbatim>\<open>pop\<close> hand it
  out. The result is the LUT list with the flags set, and the plans.
\<close>

fun PlanMerges_loop ::
  "(IdString \<Rightarrow> IdString) \<Rightarrow> (IdString \<Rightarrow> string) \<Rightarrow> LutInfo list \<Rightarrow> MergeCandidate list
     \<Rightarrow> MergePlan list \<Rightarrow> error + (LutInfo list \<times> MergePlan list)" where
  "PlanMerges_loop uniquify log_id luts [] plans = Inr (luts, plans)"
| "PlanMerges_loop uniquify log_id luts (best_pair # candidates) plans =
     (case plan_candidate uniquify log_id luts best_pair of
        Inl e \<Rightarrow> Inl e
      | Inr (luts', new_plans) \<Rightarrow> PlanMerges_loop uniquify log_id luts' candidates (plans @ new_plans))"

definition PlanMerges ::
  "(IdString \<Rightarrow> IdString) \<Rightarrow> (IdString \<Rightarrow> string) \<Rightarrow> LutInfo list \<Rightarrow> MergeCandidate list
     \<Rightarrow> error + (LutInfo list \<times> MergePlan list)" where
  "PlanMerges uniquify log_id luts candidates = PlanMerges_loop uniquify log_id luts candidates []"

text \<open>
  \<^verbatim>\<open>std::priority_queue<MergeCandidate>\<close> compares candidates by \<^verbatim>\<open>operator<\<close>, that is by
  \<open>score\<close> alone, and keeps them in a vector that is a binary max-heap: \<^verbatim>\<open>push\<close> is
  \<^verbatim>\<open>push_back\<close> and \<^verbatim>\<open>std::push_heap\<close>, \<^verbatim>\<open>top\<close> is the front of the vector, \<^verbatim>\<open>pop\<close> is
  \<^verbatim>\<open>std::pop_heap\<close> and \<^verbatim>\<open>pop_back\<close>. A candidate of highest score is handed out first. The
  order among candidates of equal score is left to the library by the language standard;
  the heap functions below are those of the GNU C++ library (\<^verbatim>\<open>bits/stl_heap.h\<close>), whose
  order among equal scores is not the order of the pushes.

  \<^verbatim>\<open>__push_heap\<close>: the hole moves up while the parent's score is below that of the value.
\<close>

function std_push_heap_aux ::
  "MergeCandidate list \<Rightarrow> nat \<Rightarrow> nat \<Rightarrow> MergeCandidate \<Rightarrow> MergeCandidate list" where
  "std_push_heap_aux first holeIndex topIndex val =
     (let parent = (holeIndex - 1) div 2 in
      if holeIndex > topIndex \<and> score (first ! parent) < score val then
        std_push_heap_aux (first[holeIndex := first ! parent]) parent topIndex val
      else first[holeIndex := val])"
  by pat_completeness auto

termination
  by (relation "measure (\<lambda>(first, holeIndex, topIndex, val). holeIndex)") auto

declare std_push_heap_aux.simps [simp del]

text \<open>\<^verbatim>\<open>std::push_heap\<close> on the whole vector: the value is its last element.\<close>

definition std_push_heap :: "MergeCandidate list \<Rightarrow> MergeCandidate list" where
  "std_push_heap c = std_push_heap_aux c (length c - 1) 0 (c ! (length c - 1))"

text \<open>
  The \<^verbatim>\<open>while\<close> loop of \<^verbatim>\<open>__adjust_heap\<close>: the hole moves down to the child of higher score,
  the right one when the scores are equal, without a look at the value to be placed. It
  gives the vector, \<open>holeIndex\<close> and \<open>secondChild\<close>.
\<close>

function std_adjust_heap_loop ::
  "MergeCandidate list \<Rightarrow> nat \<Rightarrow> nat \<Rightarrow> nat \<Rightarrow> MergeCandidate list \<times> nat \<times> nat" where
  "std_adjust_heap_loop first len holeIndex secondChild =
     (if secondChild < (len - 1) div 2 then
        (let secondChild1 = 2 * (secondChild + 1);
             secondChild2 = (if score (first ! secondChild1) < score (first ! (secondChild1 - 1))
                             then secondChild1 - 1 else secondChild1)
         in std_adjust_heap_loop (first[holeIndex := first ! secondChild2]) len secondChild2 secondChild2)
      else (first, holeIndex, secondChild))"
  by pat_completeness auto

termination
  by (relation "measure (\<lambda>(first, len, holeIndex, secondChild). len - secondChild)") auto

declare std_adjust_heap_loop.simps [simp del]

text \<open>
  \<^verbatim>\<open>__adjust_heap\<close>: after the loop, a last node with a left child only takes that child;
  then the value is pushed up from the hole by \<^verbatim>\<open>__push_heap\<close>, not above \<open>topIndex\<close>.
\<close>

definition std_adjust_heap ::
  "MergeCandidate list \<Rightarrow> nat \<Rightarrow> nat \<Rightarrow> MergeCandidate \<Rightarrow> MergeCandidate list" where
  "std_adjust_heap first holeIndex len val =
     (let topIndex = holeIndex;
          (first1, holeIndex1, secondChild1) = std_adjust_heap_loop first len holeIndex holeIndex;
          (first2, holeIndex2) =
            (if even len \<and> secondChild1 = (len - 2) div 2 then
               (let secondChild2 = 2 * (secondChild1 + 1)
                in (first1[holeIndex1 := first1 ! (secondChild2 - 1)], secondChild2 - 1))
             else (first1, holeIndex1))
      in std_push_heap_aux first2 holeIndex2 topIndex val)"

text \<open>
  \<^verbatim>\<open>std::pop_heap\<close> on the whole vector: the front goes to the last place, and the element
  that was there is placed in the heap made of the places before it.
\<close>

definition std_pop_heap :: "MergeCandidate list \<Rightarrow> MergeCandidate list" where
  "std_pop_heap c =
     (if length c > 1 then
        (let len = length c - 1; val = c ! len
         in std_adjust_heap (c[len := c ! 0]) 0 len val)
      else c)"

text \<open>\<^verbatim>\<open>push\<close> and \<^verbatim>\<open>pop\<close> of the queue, on its vector.\<close>

definition pq_push :: "MergeCandidate list \<Rightarrow> MergeCandidate \<Rightarrow> MergeCandidate list" where
  "pq_push c x = std_push_heap (c @ [x])"

definition pq_pop :: "MergeCandidate list \<Rightarrow> MergeCandidate list" where
  "pq_pop c = butlast (std_pop_heap c)"

lemma std_push_heap_aux_length:
  "length (std_push_heap_aux first holeIndex topIndex val) = length first"
proof (induction first holeIndex topIndex val rule: std_push_heap_aux.induct)
  case (1 first holeIndex topIndex val)
  let ?p = "(holeIndex - 1) div 2"
  show ?case
  proof (cases "holeIndex > topIndex \<and> score (first ! ?p) < score val")
    case True
    have "std_push_heap_aux first holeIndex topIndex val
        = std_push_heap_aux (first[holeIndex := first ! ?p]) ?p topIndex val"
      using True by (subst std_push_heap_aux.simps) (simp add: Let_def)
    with "1.IH" [OF refl True] show ?thesis by simp
  next
    case False
    then show ?thesis
      by (subst std_push_heap_aux.simps) (auto simp: Let_def)
  qed
qed

lemma std_adjust_heap_loop_length:
  "length (fst (std_adjust_heap_loop first len holeIndex secondChild)) = length first"
proof (induction first len holeIndex secondChild rule: std_adjust_heap_loop.induct)
  case (1 first len holeIndex secondChild)
  let ?s1 = "2 * (secondChild + 1)"
  let ?s2 = "if score (first ! ?s1) < score (first ! (?s1 - 1)) then ?s1 - 1 else ?s1"
  let ?f = "first[holeIndex := first ! ?s2]"
  show ?case
  proof (cases "secondChild < (len - 1) div 2")
    case True
    have eq: "std_adjust_heap_loop first len holeIndex secondChild
        = std_adjust_heap_loop ?f len ?s2 ?s2"
      using True by (subst std_adjust_heap_loop.simps) (simp only: Let_def if_True)
    have "length (fst (std_adjust_heap_loop ?f len ?s2 ?s2)) = length ?f"
      by (rule "1.IH" [OF True refl refl])
    then show ?thesis
      by (simp only: eq length_list_update)
  next
    case False
    then show ?thesis
      by (subst std_adjust_heap_loop.simps) simp
  qed
qed

lemma std_adjust_heap_length:
  "length (std_adjust_heap first holeIndex len val) = length first"
proof -
  obtain first1 holeIndex1 secondChild1 where
    run: "std_adjust_heap_loop first len holeIndex holeIndex = (first1, holeIndex1, secondChild1)"
    by (cases "std_adjust_heap_loop first len holeIndex holeIndex") auto
  from std_adjust_heap_loop_length [of first len holeIndex holeIndex] run
  have "length first1 = length first" by simp
  with run show ?thesis
    by (simp add: std_adjust_heap_def Let_def std_push_heap_aux_length)
qed

lemma std_pop_heap_length: "length (std_pop_heap c) = length c"
  by (simp add: std_pop_heap_def Let_def std_adjust_heap_length)

text \<open>
  The candidates in the order in which the loop \<^verbatim>\<open>while (!candidates.empty())\<close> of
  \<^verbatim>\<open>PlanMerges\<close> takes them with \<^verbatim>\<open>top\<close> and \<^verbatim>\<open>pop\<close>.
\<close>

function pop_order :: "MergeCandidate list \<Rightarrow> MergeCandidate list" where
  "pop_order [] = []"
| "pop_order (x # xs) = x # pop_order (pq_pop (x # xs))"
  by pat_completeness auto

termination
  by (relation "measure length") (simp_all add: pq_pop_def std_pop_heap_length)

text \<open>
  The search pushes the candidates one by one; \<open>priority_queue_of\<close> gives them in the order
  in which \<^verbatim>\<open>PlanMerges\<close> then takes them.
\<close>

definition priority_queue_of :: "MergeCandidate list \<Rightarrow> MergeCandidate list" where
  "priority_queue_of pushed = pop_order (foldl pq_push [] pushed)"

section \<open>The netlist, \<^verbatim>\<open>CollectLuts\<close> and \<^verbatim>\<open>StitcherMain\<close>\<close>

text \<open>
  A cell of the kernel with the fields the pass reads: \<^verbatim>\<open>name\<close>, \<^verbatim>\<open>type\<close>, the port
  connections (one bit each on a LUT) and the parameters. A module is the list of its
  cells, in the order \<^verbatim>\<open>module->cells()\<close> enumerates them.
\<close>

record Cell =
  name_c :: IdString
  type_c :: IdString
  connections_c :: "(IdString \<times> SigBit) list"
  parameters_c :: "(IdString \<times> Const) list"

type_synonym Module = "Cell list"

text \<open>Assignment \<^verbatim>\<open>m[key] = v\<close> into a \<^verbatim>\<open>std::map\<close> with string keys.\<close>

fun map_assign :: "(string \<times> 'v) list \<Rightarrow> string \<Rightarrow> 'v \<Rightarrow> (string \<times> 'v) list" where
  "map_assign [] k v = [(k, v)]"
| "map_assign ((k', v') # m) k v =
     (if k < k' then (k, v) # (k', v') # m
      else if k = k' then (k, v) # m
      else (k', v') # map_assign m k v)"

text \<open>
  \<^verbatim>\<open>type_str[8] - '0'\<close> on a (signed) \<^verbatim>\<open>char\<close>.
\<close>

definition char_minus_0 :: "char \<Rightarrow> int" where
  "char_minus_0 c = (let n = (of_char c :: int) in (if n \<ge> 128 then n - 256 else n) - 48)"

text \<open>
  The body of the loop of \<^verbatim>\<open>CollectLuts\<close> for one cell of a LUT type. \<open>sigmap\<close> is the
  kernel's canonicaliser. \<^verbatim>\<open>getPort\<close> and \<^verbatim>\<open>getParam\<close> raise on a missing key.
\<close>

definition collect_cell :: "(SigBit \<Rightarrow> SigBit) \<Rightarrow> Cell \<Rightarrow> error + LutInfo" where
  "collect_cell sigmap cell =
     (let size = char_minus_0 (type_c cell ! 8);
          inputs = foldl (\<lambda>m i.
                      (let port_name = ''I'' @ to_string i
                       in case map_of (connections_c cell) (escaped port_name) of
                            Some sig \<Rightarrow> map_assign m port_name (sigmap sig)
                          | None \<Rightarrow> m))
                    [] [0..<nat size]
      in case map_of (connections_c cell) (escaped ''Z'') of
           None \<Rightarrow> Inl OutOfRange
         | Some z \<Rightarrow>
             (case map_of (parameters_c cell) (escaped ''INIT'') of
                None \<Rightarrow> Inl OutOfRange
              | Some init \<Rightarrow>
                  Inr \<lparr>cell_ptr = name_c cell, size_lut = size, ordered_inputs = inputs,
                       output_sig = sigmap z, init_val = init, is_merged = False\<rparr>))"

definition is_lut_type :: "IdString \<Rightarrow> bool" where
  "is_lut_type t = (take 8 t = escaped ''GTP_LUT'' \<and> length t = 9)"

fun CollectLuts :: "(SigBit \<Rightarrow> SigBit) \<Rightarrow> Module \<Rightarrow> error + LutInfo list" where
  "CollectLuts sigmap [] = Inr []"
| "CollectLuts sigmap (cell # cells) =
     (if is_lut_type (type_c cell) then
        (case collect_cell sigmap cell of
           Inl e \<Rightarrow> Inl e
         | Inr info \<Rightarrow> (case CollectLuts sigmap cells of Inl e \<Rightarrow> Inl e | Inr luts \<Rightarrow> Inr (info # luts)))
      else CollectLuts sigmap cells)"

text \<open>
  The partition of \<^verbatim>\<open>StitcherMain\<close>: every LUT that has a level is appended to the vector
  of its level in \<^verbatim>\<open>level_to_lut_indices\<close>.
\<close>

fun level_push_back :: "(int \<times> nat list) list \<Rightarrow> int \<Rightarrow> nat \<Rightarrow> (int \<times> nat list) list" where
  "level_push_back [] level i = [(level, [i])]"
| "level_push_back ((l, v) # m) level i =
     (if level < l then (level, [i]) # (l, v) # m
      else if level = l then (l, v @ [i]) # m
      else (l, v) # level_push_back m level i)"

definition partition_levels :: "int option list \<Rightarrow> nat \<Rightarrow> (int \<times> nat list) list" where
  "partition_levels lvs n =
     foldl (\<lambda>m i. case lvs ! i of None \<Rightarrow> m | Some level \<Rightarrow> level_push_back m level i)
           [] [0..<n]"

subsection \<open>MergeExecutor\<close>

text \<open>
  The mutations of the module are recorded as they happen. \<^verbatim>\<open>module->remove\<close> deletes the
  cell; \<^verbatim>\<open>module->addCell\<close> with \<^verbatim>\<open>setParam\<close> and \<^verbatim>\<open>setPort\<close> appends the fused cell.
\<close>

datatype mutation = Remove IdString | AddCell IdString

definition module_cell :: "Module \<Rightarrow> IdString \<Rightarrow> Cell option" where
  "module_cell module n = find (\<lambda>c. name_c c = n) module"

definition remove_cells :: "IdString list \<Rightarrow> Module \<times> mutation list \<Rightarrow> Module \<times> mutation list" where
  "remove_cells cell_names st =
     foldl (\<lambda>(module, trace) cell_name.
              case module_cell module cell_name of
                Some c \<Rightarrow> (filter (\<lambda>c'. name_c c' \<noteq> cell_name) module, trace @ [Remove cell_name])
              | None \<Rightarrow> (module, trace))
           st cell_names"

definition fused_cell :: "MergePlan \<Rightarrow> Cell" where
  "fused_cell plan =
     \<lparr>name_c = new_cell_name plan, type_c = escaped ''GTP_LUT6D'',
      connections_c = port_connections plan,
      parameters_c = [(escaped ''INIT'', init_val_plan plan)]\<rparr>"

definition add_cells :: "MergePlan list \<Rightarrow> Module \<times> mutation list \<Rightarrow> Module \<times> mutation list" where
  "add_cells plans st =
     foldl (\<lambda>(module, trace) plan. (module @ [fused_cell plan], trace @ [AddCell (new_cell_name plan)]))
           st plans"

definition cell_names_to_remove :: "MergePlan list \<Rightarrow> IdString pool" where
  "cell_names_to_remove plans =
     foldl (\<lambda>p plan. pool_insert (pool_insert p (cell_a_to_remove plan)) (cell_b_to_remove plan)) [] plans"

text \<open>
  Step 5 of \<^verbatim>\<open>StitcherMain\<close>: the module after the commit, the mutations in order, and
  the number the final \<^verbatim>\<open>log\<close> reports as merges performed.
\<close>

definition ExecuteMerges :: "Module \<Rightarrow> MergePlan list \<Rightarrow> Module \<times> mutation list \<times> nat" where
  "ExecuteMerges module plans =
     (let (module', trace) = add_cells plans
            (remove_cells (pool_iter (cell_names_to_remove plans)) (module, []))
      in (module', trace, length plans))"

text \<open>What a run leaves behind: the module, its mutations, and what the log says.\<close>

datatype message = Loop_warning | No_valid_merges | Performed nat

record run =
  module_after :: Module
  mutations :: "mutation list"
  messages :: "message list"

definition LAYERED_SEARCH_THRESHOLD :: nat where
  "LAYERED_SEARCH_THRESHOLD = 30000"

text \<open>
  \<^verbatim>\<open>StitcherMain\<close>. The dump of the LUTs to a file and the timers leave the netlist alone
  and are left out. The three kernel services are parameters: \<open>sigmap\<close>, \<open>uniquify\<close> (on the
  module as it is during planning) and \<open>log_id\<close>.
\<close>

definition find_candidates :: "LutInfo list \<Rightarrow> error + (MergeCandidate list \<times> message list)" where
  "find_candidates all_luts =
     (if length all_luts \<le> LAYERED_SEARCH_THRESHOLD then
        Inr (priority_queue_of (FindMergeCandidates_Global all_luts), [])
      else
        (case NumberLutsByLevel all_luts of
           Inl e \<Rightarrow> Inl e
         | Inr lv \<Rightarrow>
             Inr (priority_queue_of
                    (FindMergeCandidates_Layered all_luts
                       (partition_levels (levels lv) (length all_luts))),
                  if loop_warning lv then [Loop_warning] else [])))"

definition StitcherMain ::
  "(SigBit \<Rightarrow> SigBit) \<Rightarrow> (Module \<Rightarrow> IdString \<Rightarrow> IdString) \<Rightarrow> (IdString \<Rightarrow> string) \<Rightarrow> Module
     \<Rightarrow> error + run" where
  "StitcherMain sigmap uniquify log_id module =
     (case CollectLuts sigmap module of
        Inl e \<Rightarrow> Inl e
      | Inr all_luts \<Rightarrow>
          (case find_candidates all_luts of
             Inl e \<Rightarrow> Inl e
           | Inr (candidates, msgs) \<Rightarrow>
               (case PlanMerges (uniquify module) log_id all_luts candidates of
                  Inl e \<Rightarrow> Inl e
                | Inr (luts', plans) \<Rightarrow>
                    if plans = [] then
                      Inr \<lparr>module_after = module, mutations = [], messages = msgs @ [No_valid_merges]\<rparr>
                    else
                      (let (module', trace, n) = ExecuteMerges module plans
                       in Inr \<lparr>module_after = module', mutations = trace,
                               messages = msgs @ [Performed n]\<rparr>))))"


section \<open>What a LUT computes\<close>

text \<open>
  The address a list of signals forms under an assignment \<open>v\<close> of the signals: the first
  signal is bit 0. A LUT outputs the bit of its table at the address its inputs form
  (bit \<open>j\<close> of the address is input port \<open>j\<close>).
\<close>

fun addr_of :: "(SigBit \<Rightarrow> bool) \<Rightarrow> SigBit list \<Rightarrow> nat" where
  "addr_of v [] = 0"
| "addr_of v (s # ss) = (if v s then 1 else 0) + 2 * addr_of v ss"

definition lut_eval :: "LutInfo \<Rightarrow> (SigBit \<Rightarrow> bool) \<Rightarrow> State" where
  "lut_eval lut v = init_val lut ! addr_of v (map snd (ordered_inputs lut))"


section \<open>Notions for the planner's invariant\<close>

text \<open>The cells the plans delete, plan by plan.\<close>

definition plan_names :: "MergePlan list \<Rightarrow> IdString list" where
  "plan_names plans = concat (map (\<lambda>p. [cell_a_to_remove p, cell_b_to_remove p]) plans)"

text \<open>The two assignments \<^verbatim>\<open>lut_a.is_merged = true; lut_b.is_merged = true\<close>.\<close>

definition claim_both :: "LutInfo list \<Rightarrow> nat \<Rightarrow> nat \<Rightarrow> LutInfo list" where
  "claim_both luts a b =
     (luts[a := (luts ! a)\<lparr>is_merged := True\<rparr>])[b := (luts[a := (luts ! a)\<lparr>is_merged := True\<rparr>] ! b)\<lparr>is_merged := True\<rparr>]"

text \<open>
  \<open>luts'\<close> differs from \<open>luts\<close> in claimed flags only, and no flag went from true to false.
\<close>

definition flags_only :: "LutInfo list \<Rightarrow> LutInfo list \<Rightarrow> bool" where
  "flags_only luts luts' =
     (length luts' = length luts
      \<and> (\<forall>i<length luts. luts' ! i = (luts ! i)\<lparr>is_merged := is_merged (luts' ! i)\<rparr>
            \<and> (is_merged (luts ! i) \<longrightarrow> is_merged (luts' ! i))))"

section \<open>Notions for the priority queue\<close>

text \<open>
  The first \<open>n\<close> places of the vector are a max-heap by score: no element is above its
  parent, the element at place \<open>(i - 1) div 2\<close>.
\<close>

definition heap_upto :: "MergeCandidate list \<Rightarrow> nat \<Rightarrow> bool" where
  "heap_upto c n = (\<forall>i. 0 < i \<and> i < n \<longrightarrow> score (c ! i) \<le> score (c ! ((i - 1) div 2)))"

text \<open>
  A heap with a hole at place \<open>h\<close>, as \<^verbatim>\<open>__adjust_heap\<close> has it while the hole moves down:
  the heap order holds wherever the hole is not concerned, and the children of the hole
  are not above the parent of the hole.
\<close>

definition hole_down :: "MergeCandidate list \<Rightarrow> nat \<Rightarrow> nat \<Rightarrow> bool" where
  "hole_down first n h =
     (h < n
      \<and> (\<forall>i. 0 < i \<and> i < n \<and> i \<noteq> h \<and> (i - 1) div 2 \<noteq> h \<longrightarrow>
             score (first ! i) \<le> score (first ! ((i - 1) div 2)))
      \<and> (\<forall>i. 0 < i \<and> i < n \<and> (i - 1) div 2 = h \<and> 0 < h \<longrightarrow>
             score (first ! i) \<le> score (first ! ((h - 1) div 2))))"

text \<open>
  The same as \<^verbatim>\<open>__push_heap\<close> has it while the hole moves up: moreover the children of the
  hole are not above the value to be placed.
\<close>

definition hole_up :: "MergeCandidate list \<Rightarrow> nat \<Rightarrow> nat \<Rightarrow> MergeCandidate \<Rightarrow> bool" where
  "hole_up first n h val =
     (hole_down first n h
      \<and> (\<forall>i. 0 < i \<and> i < n \<and> (i - 1) div 2 = h \<longrightarrow> score (first ! i) \<le> score val))"

section \<open>Example netlists\<close>

text \<open>A plan that names the cells \<open>a\<close> and \<open>b\<close>, and a module that holds \<open>b\<close> only.\<close>

definition ex_plan :: MergePlan where
  "ex_plan = \<lparr>new_cell_name = ''m'', init_val_plan = replicate 64 S0,
     port_connections = [], cell_a_to_remove = ''a'', cell_b_to_remove = ''b''\<rparr>"

definition ex_cell_b :: Cell where
  "ex_cell_b = \<lparr>name_c = ''b'', type_c = ''t'', connections_c = [], parameters_c = []\<rparr>"

text \<open>A module with one LUT of one input and one flip-flop.\<close>

definition ex_lut1_cell :: Cell where
  "ex_lut1_cell = \<lparr>name_c = escaped ''g'', type_c = escaped ''GTP_LUT1'',
     connections_c = [(escaped ''I0'', SigWire 0), (escaped ''Z'', SigWire 1)],
     parameters_c = [(escaped ''INIT'', [S1, S0])]\<rparr>"

definition ex_other_cell :: Cell where
  "ex_other_cell = \<lparr>name_c = escaped ''ff'', type_c = escaped ''GTP_DFF'',
     connections_c = [(escaped ''D'', SigWire 1), (escaped ''Q'', SigWire 2)],
     parameters_c = []\<rparr>"

text \<open>
  A LUT record with all its ports connected: name, the wires on \<open>I0\<close>, \<open>I1\<close>, ..., the
  output wire and the table.
\<close>

definition ex_lut :: "IdString \<Rightarrow> nat list \<Rightarrow> nat \<Rightarrow> Const \<Rightarrow> LutInfo" where
  "ex_lut n ins z init = \<lparr>cell_ptr = n, size_lut = int (length ins),
     ordered_inputs = map (\<lambda>k. (''I'' @ to_string k, SigWire (ins ! k))) [0..<length ins],
     output_sig = SigWire z, init_val = init, is_merged = False\<rparr>"

text \<open>Two LUTs of one input over independent wires, with the tables \<open>[0, 1]\<close> and \<open>[1, 0]\<close>.\<close>

definition ex_xy :: "LutInfo list" where
  "ex_xy = [ex_lut ''X'' [0] 10 [S0, S1], ex_lut ''Y'' [1] 11 [S1, S0]]"

text \<open>A LUT of six inputs and a LUT of one input that reads one of the six wires.\<close>

definition ex_wide :: "LutInfo list" where
  "ex_wide = [ex_lut ''A'' [0, 1, 2, 3, 4, 5] 10 (replicate 64 S0), ex_lut ''B'' [0] 11 [S0, S1]]"

text \<open>
  A LUT of six inputs that is 1 exactly when all inputs are 0, and the constant-0 LUT over
  its first five wires.
\<close>

definition ex_absorb :: "LutInfo list" where
  "ex_absorb = [ex_lut ''A'' [0, 1, 2, 3, 4, 5] 10 (S1 # replicate 63 S0),
                ex_lut ''B'' [0, 1, 2, 3, 4] 11 (replicate 32 S0)]"

text \<open>Two LUTs of six inputs; the second has wire 0 on both \<open>I0\<close> and \<open>I5\<close>.\<close>

definition ex_dup :: "LutInfo list" where
  "ex_dup = [ex_lut ''A'' [0, 1, 2, 3, 4, 5] 10 (replicate 64 S0),
             ex_lut ''B'' [0, 1, 2, 3, 4, 0] 11 (replicate 64 S0)]"

text \<open>Three LUTs of two inputs; the first two read the same wires.\<close>

definition ex_luts3 :: "LutInfo list" where
  "ex_luts3 = [ex_lut ''L0'' [0, 1] 10 [S0, S0, S0, S1], ex_lut ''L1'' [0, 1] 11 [S0, S1, S1, S1],
               ex_lut ''L2'' [1, 2] 12 [S0, S1, S1, S0]]"

section \<open>Notions for the leveling\<close>

text \<open>
  The LUTs the pass finds as drivers of the inputs of LUT \<open>s\<close>.
\<close>

definition drivers_of :: "LutInfo list \<Rightarrow> nat \<Rightarrow> nat set" where
  "drivers_of luts s =
     {u. \<exists>sig \<in> snd ` set (ordered_inputs (luts ! s)). output_sig_to_lut luts sig = Some u}"

text \<open>
  The predecessors of \<open>v\<close> in \<open>lut_graph\<close>: the LUTs whose set of downstream LUTs holds \<open>v\<close>.
\<close>

definition preds :: "nat pool list \<Rightarrow> nat \<Rightarrow> nat set" where
  "preds g v = {u. u < length g \<and> v \<in> set (g ! u)}"

text \<open>
  What \<open>build_graph\<close> establishes: every downstream set is duplicate-free and within
  the list, and the in-degree of a LUT is the number of its predecessors.
\<close>

definition graph_ok :: "nat pool list \<Rightarrow> int list \<Rightarrow> bool" where
  "graph_ok g deg =
     (length deg = length g
      \<and> (\<forall>u<length g. distinct (g ! u) \<and> set (g ! u) \<subseteq> {..<length g})
      \<and> (\<forall>v<length g. deg ! v = int (card (preds g v))))"

text \<open>
  One turn of the loop of \<open>build_graph\<close>.
\<close>

definition build_step :: "LutInfo list \<Rightarrow> nat pool list \<times> int list \<Rightarrow> nat \<Rightarrow> nat pool list \<times> int list" where
  "build_step luts = (\<lambda>(lut_graph, lut_in_degree) src.
              add_edges (output_sig_to_lut luts) src (map snd (ordered_inputs (luts ! src)))
                (lut_graph, lut_in_degree[src := 0]))"

text \<open>
  The level of a downstream LUT after the update \<^verbatim>\<open>max(level, current_level + 1)\<close>.
\<close>

definition bump_level :: "int \<Rightarrow> int option \<Rightarrow> int option" where
  "bump_level cl old = (case old of None \<Rightarrow> Some (cl + 1) | Some l \<Rightarrow> Some (max l (cl + 1)))"

text \<open>
  The invariant of the \<^verbatim>\<open>while\<close> loop, for the set \<open>D\<close> of LUTs that have left the queue: the
  shape of the state,
\<close>

definition inv_shape :: "nat pool list \<Rightarrow> level_state \<Rightarrow> nat set \<Rightarrow> bool" where
  "inv_shape g s D =
     (length (lut_levels s) = length g \<and> length (lut_in_degree s) = length g
      \<and> distinct (q s) \<and> set (q s) \<inter> D = {} \<and> set (q s) \<subseteq> {..<length g} \<and> D \<subseteq> {..<length g}
      \<and> processed_count s = card D)"

text \<open>
  the remaining in-degrees (a LUT is in the queue or done exactly when all its
  predecessors are done),
\<close>

definition inv_deg :: "nat pool list \<Rightarrow> level_state \<Rightarrow> nat set \<Rightarrow> bool" where
  "inv_deg g s D =
     ((\<forall>v<length g. lut_in_degree s ! v = int (card (preds g v - D)))
      \<and> (\<forall>v<length g. v \<in> set (q s) \<union> D \<longleftrightarrow> preds g v \<subseteq> D))"

text \<open>
  and the levels: 0 without predecessors, above every done predecessor, and reached by
  one of them.
\<close>

definition inv_lev :: "nat pool list \<Rightarrow> int option list \<Rightarrow> nat set \<Rightarrow> bool" where
  "inv_lev g lev D =
     ((\<forall>v<length g. preds g v = {} \<longrightarrow> lev ! v = Some 0)
      \<and> (\<forall>v<length g. \<forall>u \<in> preds g v \<inter> D. \<exists>lu l. lev ! u = Some lu \<and> lev ! v = Some l \<and> lu + 1 \<le> l)
      \<and> (\<forall>v<length g. \<forall>l. lev ! v = Some l \<longrightarrow>
            (l = 0 \<and> preds g v = {}) \<or> (\<exists>u \<in> preds g v \<inter> D. lev ! u = Some (l - 1)))
      \<and> (\<forall>v<length g. \<forall>l. lev ! v = Some l \<longrightarrow> 0 \<le> l))"

definition kahn_inv :: "nat pool list \<Rightarrow> level_state \<Rightarrow> nat set \<Rightarrow> bool" where
  "kahn_inv g s D = (inv_shape g s D \<and> inv_deg g s D \<and> inv_lev g (lut_levels s) D)"

text \<open>
  The dependency edge \<open>u \<rightarrow> v\<close>: the output of LUT \<open>u\<close> is one of the inputs of LUT \<open>v\<close>.
\<close>

definition depends :: "LutInfo list \<Rightarrow> nat \<Rightarrow> nat \<Rightarrow> bool" where
  "depends luts u v =
     (u < length luts \<and> v < length luts
      \<and> output_sig (luts ! u) \<in> snd ` set (ordered_inputs (luts ! v)))"

text \<open>
  A chain of dependencies, listed from its first LUT to the LUT it ends at; a chain of
  \<open>k + 1\<close> LUTs has length \<open>k\<close>.
\<close>

fun dep_chain :: "LutInfo list \<Rightarrow> nat list \<Rightarrow> bool" where
  "dep_chain luts [] = False"
| "dep_chain luts [v] = (v < length luts)"
| "dep_chain luts (u # v # vs) = (depends luts u v \<and> dep_chain luts (v # vs))"

text \<open>
  The edge the pass builds: \<open>u\<close> is the LUT \<open>output_sig_to_lut\<close> gives for an input of \<open>v\<close>.
\<close>

definition lut_edge :: "LutInfo list \<Rightarrow> nat \<Rightarrow> nat \<Rightarrow> bool" where
  "lut_edge luts u v = (v < length luts \<and> u \<in> drivers_of luts v)"

text \<open>
  What holds of the levels and of the set \<open>D\<close> of visited LUTs when the queue has run empty.
\<close>

definition visited_ok :: "LutInfo list \<Rightarrow> int option list \<Rightarrow> nat set \<Rightarrow> bool" where
  "visited_ok luts lev D =
     (D \<subseteq> {..<length luts} \<and> length lev = length luts
      \<and> (\<forall>v<length luts. v \<in> D \<longleftrightarrow> (\<forall>u. lut_edge luts u v \<longrightarrow> u \<in> D))
      \<and> (\<forall>v<length luts. (\<forall>u. \<not> lut_edge luts u v) \<longrightarrow> lev ! v = Some 0)
      \<and> (\<forall>u v. lut_edge luts u v \<and> u \<in> D \<longrightarrow> (\<exists>lu l. lev ! u = Some lu \<and> lev ! v = Some l \<and> lu < l))
      \<and> (\<forall>v<length luts. \<forall>l. lev ! v = Some l \<longrightarrow>
            (l = 0 \<and> (\<forall>u. \<not> lut_edge luts u v))
            \<or> (\<exists>u. lut_edge luts u v \<and> u \<in> D \<and> lev ! u = Some (l - 1)))
      \<and> (\<forall>v<length luts. \<forall>l. lev ! v = Some l \<longrightarrow> 0 \<le> l))"

text \<open>
  LUT \<open>v\<close> is in the vector of level \<open>l\<close> of \<^verbatim>\<open>level_to_lut_indices\<close>.
\<close>

definition in_level :: "(int \<times> nat list) list \<Rightarrow> int \<Rightarrow> nat \<Rightarrow> bool" where
  "in_level level_to_lut_indices l v =
     (case map_of level_to_lut_indices l of None \<Rightarrow> False | Some vs \<Rightarrow> v \<in> set vs)"

text \<open>
  Three LUTs \<open>A \<rightarrow> B \<rightarrow> C\<close> with \<open>A \<rightarrow> C\<close>.
\<close>

definition ex_chain :: "LutInfo list" where
  "ex_chain = [ex_lut ''A'' [0] 10 [S0, S1], ex_lut ''B'' [10, 1] 11 [S0, S0, S0, S1],
               ex_lut ''C'' [10, 11] 12 [S0, S1, S1, S0]]"

text \<open>
  Three LUTs: \<open>A\<close> feeds \<open>B\<close>, and \<open>B\<close> and \<open>C\<close> feed each other; \<open>A\<close> and \<open>B\<close> share wire 0.
\<close>

definition ex_loop :: "LutInfo list" where
  "ex_loop = [ex_lut ''A'' [0] 10 [S0, S1],
              ex_lut ''B'' [10, 12, 0] 11 [S0, S0, S0, S1, S0, S0, S0, S1],
              ex_lut ''C'' [11] 12 [S1, S0]]"

section \<open>The commit phase\<close>

lemma pool_insert_distinct: "distinct p \<Longrightarrow> distinct (pool_insert p x)"
  by (simp add: pool_insert_def)

lemma pool_insert_set: "set (pool_insert p x) = insert x (set p)"
  by (auto simp: pool_insert_def)

lemma cell_names_fold_distinct:
  "distinct p \<Longrightarrow> distinct (foldl (\<lambda>p plan. pool_insert (pool_insert p (cell_a_to_remove plan)) (cell_b_to_remove plan)) p plans)"
  by (induction plans arbitrary: p) (simp_all add: pool_insert_distinct)

lemma cell_names_fold_set:
  "set (foldl (\<lambda>p plan. pool_insert (pool_insert p (cell_a_to_remove plan)) (cell_b_to_remove plan)) p plans)
     = set p \<union> (\<Union>plan \<in> set plans. {cell_a_to_remove plan, cell_b_to_remove plan})"
  by (induction plans arbitrary: p) (auto simp: pool_insert_set)

lemma cell_names_to_remove_distinct: "distinct (cell_names_to_remove plans)"
  by (simp add: cell_names_to_remove_def cell_names_fold_distinct)

lemma cell_names_to_remove_set:
  "set (cell_names_to_remove plans) = (\<Union>plan \<in> set plans. {cell_a_to_remove plan, cell_b_to_remove plan})"
  by (simp add: cell_names_to_remove_def cell_names_fold_set)

lemma module_cell_None: "module_cell module n = None \<longleftrightarrow> n \<notin> name_c ` set module"
  by (auto simp: module_cell_def find_None_iff)

lemma remove_cells_Nil: "remove_cells [] st = st"
  by (simp add: remove_cells_def)

lemma remove_cells_Cons:
  "remove_cells (n # ns) (module, trace) =
     remove_cells ns (if n \<in> name_c ` set module
                      then (filter (\<lambda>c'. name_c c' \<noteq> n) module, trace @ [Remove n])
                      else (module, trace))"
proof (cases "module_cell module n")
  case None
  moreover from None have "n \<notin> name_c ` set module" by (simp add: module_cell_None)
  ultimately show ?thesis by (simp add: remove_cells_def)
next
  case (Some c)
  moreover from Some have "n \<in> name_c ` set module" using module_cell_None [of module n] by simp
  ultimately show ?thesis by (simp add: remove_cells_def)
qed

lemma remove_cells_result:
  "distinct ns \<Longrightarrow>
   remove_cells ns (module, trace) =
     (filter (\<lambda>c. name_c c \<notin> set ns) module,
      trace @ map Remove (filter (\<lambda>n. n \<in> name_c ` set module) ns))"
proof (induction ns arbitrary: module trace)
  case Nil
  then show ?case by (simp add: remove_cells_Nil)
next
  case (Cons n ns)
  have same: "filter (\<lambda>m. m \<in> name_c ` set (filter (\<lambda>c'. name_c c' \<noteq> n) module)) ns
      = filter (\<lambda>m. m \<in> name_c ` set module) ns"
    using Cons.prems by (intro filter_cong) auto
  have conj_filter: "filter (\<lambda>c. name_c c \<notin> set ns) (filter (\<lambda>c'. name_c c' \<noteq> n) module)
      = filter (\<lambda>c. name_c c \<notin> set (n # ns)) module"
    by (induction module) auto
  show ?case
  proof (cases "n \<in> name_c ` set module")
    case True
    then show ?thesis
      using Cons.IH [of "filter (\<lambda>c'. name_c c' \<noteq> n) module" "trace @ [Remove n]"] Cons.prems
      by (simp add: remove_cells_Cons same conj_filter del: set_filter)
  next
    case False
    then have "filter (\<lambda>c. name_c c \<notin> set ns) module = filter (\<lambda>c. name_c c \<notin> set (n # ns)) module"
      by (intro filter_cong) auto
    with False show ?thesis
      using Cons.IH [of module trace] Cons.prems
      by (simp add: remove_cells_Cons)
  qed
qed

lemma add_cells_result:
  "add_cells plans (module, trace) =
     (module @ map fused_cell plans, trace @ map (\<lambda>plan. AddCell (new_cell_name plan)) plans)"
  by (induction plans arbitrary: module trace) (simp_all add: add_cells_def)

lemma ExecuteMerges_result:
  "ExecuteMerges module plans =
     (filter (\<lambda>c. name_c c \<notin> set (cell_names_to_remove plans)) module @ map fused_cell plans,
      map Remove (filter (\<lambda>n. n \<in> name_c ` set module) (pool_iter (cell_names_to_remove plans)))
        @ map (\<lambda>plan. AddCell (new_cell_name plan)) plans,
      length plans)"
  by (simp add: ExecuteMerges_def pool_iter_def remove_cells_result add_cells_result
      cell_names_to_remove_distinct)

text \<open>
  C8. The commit first removes, then adds. The removal loop of \<open>ExecuteMerges\<close> takes the
  module to \<open>mid\<close> and performs the removals \<open>removed\<close>, and only then the loop of additions
  starts, on \<open>mid\<close>: the module returned is \<open>mid\<close> followed by one fused cell per plan, and the
  mutations are the removals followed by one \<open>AddCell\<close> per plan, in plan order. \<open>mid\<close> is
  the module without the removed cells and holds no cell named by a plan. The removed
  names are pairwise different (a cell named by two plans is removed once) and are exactly
  the names the plans give that the module holds.
\<close>

theorem removals_precede_additions:
  "\<exists>removed mid.
       remove_cells (pool_iter (cell_names_to_remove plans)) (module, []) = (mid, map Remove removed)
     \<and> add_cells plans (mid, map Remove removed)
          = (mid @ map fused_cell plans,
             map Remove removed @ map (\<lambda>plan. AddCell (new_cell_name plan)) plans)
     \<and> ExecuteMerges module plans
          = (mid @ map fused_cell plans,
             map Remove removed @ map (\<lambda>plan. AddCell (new_cell_name plan)) plans,
             length plans)
     \<and> mid = filter (\<lambda>c. name_c c \<notin> set removed) module
     \<and> distinct removed
     \<and> set removed = (\<Union>plan \<in> set plans. {cell_a_to_remove plan, cell_b_to_remove plan})
                        \<inter> name_c ` set module
     \<and> name_c ` set mid
          \<inter> (\<Union>plan \<in> set plans. {cell_a_to_remove plan, cell_b_to_remove plan}) = {}"
proof -
  let ?ns = "pool_iter (cell_names_to_remove plans)"
  let ?rs = "filter (\<lambda>n. n \<in> name_c ` set module) ?ns"
  let ?mid = "filter (\<lambda>c. name_c c \<notin> set ?ns) module"
  have dn: "distinct ?ns"
    by (simp add: pool_iter_def cell_names_to_remove_distinct)
  have r: "remove_cells ?ns (module, []) = (?mid, map Remove ?rs)"
    using remove_cells_result [OF dn, of module "[]"] by simp
  have a: "add_cells plans (?mid, map Remove ?rs)
          = (?mid @ map fused_cell plans,
             map Remove ?rs @ map (\<lambda>plan. AddCell (new_cell_name plan)) plans)"
    by (rule add_cells_result)
  have x: "ExecuteMerges module plans
          = (?mid @ map fused_cell plans,
             map Remove ?rs @ map (\<lambda>plan. AddCell (new_cell_name plan)) plans,
             length plans)"
    by (simp add: ExecuteMerges_def r a)
  have m: "?mid = filter (\<lambda>c. name_c c \<notin> set ?rs) module"
    by (intro filter_cong) auto
  have d: "distinct ?rs"
    using dn by simp
  have s: "set ?rs = (\<Union>plan \<in> set plans. {cell_a_to_remove plan, cell_b_to_remove plan})
                        \<inter> name_c ` set module"
    by (auto simp: pool_iter_def cell_names_to_remove_set)
  have e: "name_c ` set ?mid
          \<inter> (\<Union>plan \<in> set plans. {cell_a_to_remove plan, cell_b_to_remove plan}) = {}"
    by (auto simp: pool_iter_def cell_names_to_remove_set)
  show ?thesis
    by (rule exI [of _ ?rs], rule exI [of _ ?mid]) (use r a x m d s e in blast)
qed

text \<open>
  C9, as the claim states it, fails: with the cell \<open>a\<close> of the plan absent from the module,
  the commit ends normally. It removes \<open>b\<close>, adds the fused cell and reports one merge.
\<close>

theorem absent_cell_counterexample:
  "module_cell [ex_cell_b] (cell_a_to_remove ex_plan) = None
   \<and> ExecuteMerges [ex_cell_b] [ex_plan] = ([fused_cell ex_plan], [Remove ''b'', AddCell ''m''], 1)"
  by (simp add: ExecuteMerges_result module_cell_def ex_plan_def ex_cell_b_def
      cell_names_to_remove_def pool_insert_def pool_iter_def)

text \<open>
  C9, amended. A plan that names a cell absent from the module does not stop the commit:
  the removal of that cell is skipped (no \<open>Remove\<close> of an absent name is ever performed),
  one fused cell per plan is still added at the end of the module, and the number reported
  is the number of plans.
\<close>

theorem absent_cell_skipped:
  assumes "ExecuteMerges module plans = (module', trace, n)"
  shows "n = length plans
     \<and> filter (\<lambda>m. \<forall>x. m \<noteq> Remove x) trace = map (\<lambda>plan. AddCell (new_cell_name plan)) plans
     \<and> map fused_cell plans = drop (length module' - length plans) module'
     \<and> (\<forall>cell_name. module_cell module cell_name = None \<longrightarrow> Remove cell_name \<notin> set trace)"
proof -
  from assms have n: "n = length plans"
    and tr: "trace = map Remove (filter (\<lambda>n. n \<in> name_c ` set module) (pool_iter (cell_names_to_remove plans)))
        @ map (\<lambda>plan. AddCell (new_cell_name plan)) plans"
    and m: "module' = filter (\<lambda>c. name_c c \<notin> set (cell_names_to_remove plans)) module @ map fused_cell plans"
    by (simp_all add: ExecuteMerges_result)
  have a: "filter (\<lambda>m. \<forall>x. m \<noteq> Remove x) trace = map (\<lambda>plan. AddCell (new_cell_name plan)) plans"
    unfolding tr by (simp add: filter_map comp_def)
  have b: "map fused_cell plans = drop (length module' - length plans) module'"
    unfolding m by simp
  have c: "\<forall>cell_name. module_cell module cell_name = None \<longrightarrow> Remove cell_name \<notin> set trace"
    unfolding tr by (auto simp: module_cell_None)
  from n a b c show ?thesis by blast
qed

theorem absent_cell_skipped_witness:
  "ExecuteMerges [ex_cell_b] [ex_plan] = ([fused_cell ex_plan], [Remove ''b'', AddCell ''m''], 1)
   \<and> (1::nat) = length [ex_plan]
   \<and> module_cell [ex_cell_b] ''a'' = None
   \<and> Remove ''a'' \<notin> set [Remove ''b'', AddCell ''m'']"
proof -
  have e: "ExecuteMerges [ex_cell_b] [ex_plan] = ([fused_cell ex_plan], [Remove ''b'', AddCell ''m''], 1)"
    by (simp add: ExecuteMerges_result module_cell_def ex_plan_def ex_cell_b_def
      cell_names_to_remove_def pool_insert_def pool_iter_def)
  have a: "module_cell [ex_cell_b] ''a'' = None"
    by (simp add: module_cell_def ex_cell_b_def)
  from absent_cell_skipped [OF e] a e show ?thesis by simp
qed

section \<open>Runs without a plan\<close>

lemma PlanMerges_no_candidates: "PlanMerges u l luts [] = Inr (luts, [])"
  by (simp add: PlanMerges_def)

lemma find_candidates_no_luts: "find_candidates [] = Inr ([], [])"
  by (simp add: find_candidates_def FindMergeCandidates_Global_def priority_queue_of_def
      LAYERED_SEARCH_THRESHOLD_def)

text \<open>
  C10. When planning yields no plan, \<open>StitcherMain\<close> returns the module it was given, with
  no mutation performed; so it does in particular when no LUT is collected and when no
  candidate is found.
\<close>

theorem no_plan_no_mutation:
  "(CollectLuts sigmap module = Inr all_luts \<and> find_candidates all_luts = Inr (candidates, msgs)
      \<and> PlanMerges (uniquify module) log_id all_luts candidates = Inr (luts', [])
    \<longrightarrow> StitcherMain sigmap uniquify log_id module
          = Inr \<lparr>module_after = module, mutations = [], messages = msgs @ [No_valid_merges]\<rparr>)
   \<and> (CollectLuts sigmap module = Inr []
    \<longrightarrow> StitcherMain sigmap uniquify log_id module
          = Inr \<lparr>module_after = module, mutations = [], messages = [No_valid_merges]\<rparr>)
   \<and> (CollectLuts sigmap module = Inr all_luts \<and> find_candidates all_luts = Inr ([], msgs)
    \<longrightarrow> StitcherMain sigmap uniquify log_id module
          = Inr \<lparr>module_after = module, mutations = [], messages = msgs @ [No_valid_merges]\<rparr>)"
  by (simp add: StitcherMain_def PlanMerges_no_candidates find_candidates_no_luts)

lemma collect_ex: "CollectLuts id [ex_other_cell, ex_lut1_cell]
   = Inr [\<lparr>cell_ptr = escaped ''g'', size_lut = 1, ordered_inputs = [(''I0'', SigWire 0)],
           output_sig = SigWire 1, init_val = [S1, S0], is_merged = False\<rparr>]"
  by code_simp

theorem no_plan_no_mutation_witness:
  "StitcherMain id (\<lambda>m n. n) id [ex_other_cell, ex_lut1_cell]
     = Inr \<lparr>module_after = [ex_other_cell, ex_lut1_cell], mutations = [], messages = [No_valid_merges]\<rparr>"
proof -
  let ?l = "\<lparr>cell_ptr = escaped ''g'', size_lut = 1, ordered_inputs = [(''I0'', SigWire 0)],
           output_sig = SigWire 1, init_val = [S1, S0], is_merged = False\<rparr>"
  have f: "find_candidates [?l] = Inr ([], [])"
    by (simp add: find_candidates_def FindMergeCandidates_Global_def priority_queue_of_def
      LAYERED_SEARCH_THRESHOLD_def global_absorb_body_def)
  from no_plan_no_mutation [of id "[ex_other_cell, ex_lut1_cell]" "[?l]" "[]" "[]" "\<lambda>m n. n" id "[?l]"]
    collect_ex f
  show ?thesis by (simp add: PlanMerges_no_candidates)
qed

section \<open>The planner claims every LUT at most once\<close>

lemma plan_candidate_cases:
  assumes "plan_candidate u l luts c = Inr (luts', new)"
  shows "idx_a c < length luts \<and> idx_b c < length luts
     \<and> ((is_merged (luts ! idx_a c) \<or> is_merged (luts ! idx_b c)) \<and> luts' = luts \<and> new = []
        \<or> \<not> is_merged (luts ! idx_a c) \<and> \<not> is_merged (luts ! idx_b c)
          \<and> luts' = claim_both luts (idx_a c) (idx_b c)
          \<and> (\<exists>p. new = [p] \<and> cell_a_to_remove p = cell_ptr (luts' ! idx_a c)
                  \<and> cell_b_to_remove p = cell_ptr (luts' ! idx_b c)))"
  using assms
  by (auto simp: plan_candidate_def claim_both_def Let_def split: if_splits sum.splits prod.splits)


lemma claim_both_length: "length (claim_both luts a b) = length luts"
  by (simp add: claim_both_def)

lemma claim_both_nth:
  "a < length luts \<Longrightarrow> b < length luts \<Longrightarrow> i < length luts \<Longrightarrow>
   claim_both luts a b ! i = (luts ! i)\<lparr>is_merged := (i = a \<or> i = b \<or> is_merged (luts ! i))\<rparr>"
  by (auto simp: claim_both_def nth_list_update)

lemma claim_both_cell_ptr:
  "a < length luts \<Longrightarrow> b < length luts \<Longrightarrow> map cell_ptr (claim_both luts a b) = map cell_ptr luts"
  by (rule nth_equalityI) (simp_all add: claim_both_length claim_both_nth)

lemma flags_only_refl: "flags_only luts luts"
  by (simp add: flags_only_def)

lemma flags_only_cell_ptr: "flags_only luts luts' \<Longrightarrow> map cell_ptr luts' = map cell_ptr luts"
proof (rule nth_equalityI)
  assume f: "flags_only luts luts'"
  then show "length (map cell_ptr luts') = length (map cell_ptr luts)"
    by (simp add: flags_only_def)
  fix i assume "i < length (map cell_ptr luts')"
  with f have i: "i < length luts" and "luts' ! i = (luts ! i)\<lparr>is_merged := is_merged (luts' ! i)\<rparr>"
    by (simp_all add: flags_only_def)
  then have "cell_ptr (luts' ! i) = cell_ptr (luts ! i)"
    by (metis LutInfo.select_convs(1) LutInfo.surjective LutInfo.update_convs(6))
  with i f show "map cell_ptr luts' ! i = map cell_ptr luts ! i"
    by (simp add: flags_only_def)
qed

lemma flags_only_claim_both:
  "a < length luts \<Longrightarrow> b < length luts \<Longrightarrow> flags_only luts (claim_both luts a b)"
  by (simp add: flags_only_def claim_both_length claim_both_nth)

lemma flags_only_trans:
  assumes "flags_only l1 l2" "flags_only l2 l3"
  shows "flags_only l1 l3"
proof -
  have len: "length l2 = length l1" "length l3 = length l1"
    using assms by (simp_all add: flags_only_def)
  have "\<forall>i<length l1. l3 ! i = (l1 ! i)\<lparr>is_merged := is_merged (l3 ! i)\<rparr>
            \<and> (is_merged (l1 ! i) \<longrightarrow> is_merged (l3 ! i))"
  proof (intro allI impI)
    fix i assume i: "i < length l1"
    from assms i len have a: "l2 ! i = (l1 ! i)\<lparr>is_merged := is_merged (l2 ! i)\<rparr>"
      and b: "l3 ! i = (l2 ! i)\<lparr>is_merged := is_merged (l3 ! i)\<rparr>"
      and c: "is_merged (l1 ! i) \<longrightarrow> is_merged (l2 ! i)"
      and d: "is_merged (l2 ! i) \<longrightarrow> is_merged (l3 ! i)"
      by (simp_all add: flags_only_def)
    have "l3 ! i = (l1 ! i)\<lparr>is_merged := is_merged (l3 ! i)\<rparr>"
      by (subst b, subst a) simp
    with c d show "l3 ! i = (l1 ! i)\<lparr>is_merged := is_merged (l3 ! i)\<rparr>
            \<and> (is_merged (l1 ! i) \<longrightarrow> is_merged (l3 ! i))" by blast
  qed
  with len show ?thesis by (simp add: flags_only_def)
qed

lemma PlanMerges_loop_inv:
  assumes "PlanMerges_loop u l luts cands plans = Inr (luts', plans')"
    and "distinct (map cell_ptr luts)"
    and "\<forall>c \<in> set cands. idx_a c \<noteq> idx_b c"
  shows "\<exists>new. plans' = plans @ new \<and> flags_only luts luts' \<and> distinct (plan_names new)
     \<and> (\<forall>i<length luts. cell_ptr (luts ! i) \<in> set (plan_names new)
            \<longleftrightarrow> \<not> is_merged (luts ! i) \<and> is_merged (luts' ! i))
     \<and> set (plan_names new) \<subseteq> cell_ptr ` set luts"
  using assms
proof (induction cands arbitrary: luts plans)
  case Nil
  then show ?case by (simp add: flags_only_refl plan_names_def)
next
  case (Cons c cands)
  from Cons.prems(1) obtain luts1 new1 where
    step: "plan_candidate u l luts c = Inr (luts1, new1)"
    and rest: "PlanMerges_loop u l luts1 cands (plans @ new1) = Inr (luts', plans')"
    by (auto split: sum.splits)
  from Cons.prems(3) have ne: "idx_a c \<noteq> idx_b c" and ne': "\<forall>c \<in> set cands. idx_a c \<noteq> idx_b c"
    by simp_all
  note pc = plan_candidate_cases [OF step]
  from pc have ra: "idx_a c < length luts" and rb: "idx_b c < length luts" by simp_all
  have f1: "flags_only luts luts1"
    using pc by (auto simp: flags_only_refl flags_only_claim_both)
  then have ptr1: "map cell_ptr luts1 = map cell_ptr luts" by (rule flags_only_cell_ptr)
  with Cons.prems(2) have d1: "distinct (map cell_ptr luts1)" by simp
  from Cons.IH [OF rest d1 ne'] obtain new2 where
    p2: "plans' = (plans @ new1) @ new2" and f2: "flags_only luts1 luts'"
    and dn2: "distinct (plan_names new2)"
    and iff2: "\<forall>i<length luts1. cell_ptr (luts1 ! i) \<in> set (plan_names new2)
            \<longleftrightarrow> \<not> is_merged (luts1 ! i) \<and> is_merged (luts' ! i)"
    and sub2: "set (plan_names new2) \<subseteq> cell_ptr ` set luts1"
    by blast
  have len1: "length luts1 = length luts" using f1 by (simp add: flags_only_def)
  have len2: "length luts' = length luts" using f2 len1 by (simp add: flags_only_def)
  have ptr_nth: "\<And>i. i < length luts \<Longrightarrow> cell_ptr (luts1 ! i) = cell_ptr (luts ! i)"
    using ptr1 len1 by (metis nth_map)
  have inj: "\<And>i j. i < length luts \<Longrightarrow> j < length luts \<Longrightarrow> cell_ptr (luts ! i) = cell_ptr (luts ! j) \<Longrightarrow> i = j"
    using Cons.prems(2) by (metis distinct_conv_nth length_map nth_map)
  have set1: "cell_ptr ` set luts1 = cell_ptr ` set luts"
    using ptr1 by (metis set_map)
  have mono2: "\<And>i. i < length luts \<Longrightarrow> is_merged (luts1 ! i) \<Longrightarrow> is_merged (luts' ! i)"
    using f2 len1 by (simp add: flags_only_def)
  have ft: "flags_only luts luts'" using f1 f2 by (rule flags_only_trans)
  show ?case
  proof (cases "new1 = []")
    case True
    with pc have same: "luts1 = luts" by auto
    show ?thesis
      using p2 ft dn2 iff2 sub2 True same by auto
  next
    case False
    with pc obtain p where
      fresh: "\<not> is_merged (luts ! idx_a c)" "\<not> is_merged (luts ! idx_b c)"
      and l1: "luts1 = claim_both luts (idx_a c) (idx_b c)"
      and n1: "new1 = [p]"
      and pa: "cell_a_to_remove p = cell_ptr (luts1 ! idx_a c)"
      and pb: "cell_b_to_remove p = cell_ptr (luts1 ! idx_b c)"
      by auto
    have names1: "plan_names new1 = [cell_ptr (luts ! idx_a c), cell_ptr (luts ! idx_b c)]"
      using n1 pa pb ra rb by (simp add: plan_names_def ptr_nth)
    have m1: "\<And>i. i < length luts \<Longrightarrow>
        is_merged (luts1 ! i) = (i = idx_a c \<or> i = idx_b c \<or> is_merged (luts ! i))"
      using l1 ra rb by (simp add: claim_both_nth)
    have notin2: "cell_ptr (luts ! idx_a c) \<notin> set (plan_names new2)"
      "cell_ptr (luts ! idx_b c) \<notin> set (plan_names new2)"
      using iff2 len1 ra rb m1 ptr_nth by metis+
    have dn: "distinct (plan_names (new1 @ new2))"
    proof -
      have "cell_ptr (luts ! idx_a c) \<noteq> cell_ptr (luts ! idx_b c)"
        using inj ra rb ne by blast
      moreover have "plan_names (new1 @ new2) = plan_names new1 @ plan_names new2"
        by (simp add: plan_names_def)
      ultimately show ?thesis using names1 dn2 notin2 by simp
    qed
    have iff: "\<forall>i<length luts. cell_ptr (luts ! i) \<in> set (plan_names (new1 @ new2))
            \<longleftrightarrow> \<not> is_merged (luts ! i) \<and> is_merged (luts' ! i)"
    proof (intro allI impI)
      fix i assume i: "i < length luts"
      have split: "set (plan_names (new1 @ new2)) = {cell_ptr (luts ! idx_a c), cell_ptr (luts ! idx_b c)} \<union> set (plan_names new2)"
        using names1 by (simp add: plan_names_def)
      have i2: "cell_ptr (luts ! i) \<in> set (plan_names new2) \<longleftrightarrow> \<not> is_merged (luts1 ! i) \<and> is_merged (luts' ! i)"
        using iff2 i len1 ptr_nth by metis
      have eqa: "cell_ptr (luts ! i) = cell_ptr (luts ! idx_a c) \<longleftrightarrow> i = idx_a c"
        using inj i ra by blast
      have eqb: "cell_ptr (luts ! i) = cell_ptr (luts ! idx_b c) \<longleftrightarrow> i = idx_b c"
        using inj i rb by blast
      show "cell_ptr (luts ! i) \<in> set (plan_names (new1 @ new2))
            \<longleftrightarrow> \<not> is_merged (luts ! i) \<and> is_merged (luts' ! i)"
        unfolding split using i2 eqa eqb m1 [OF i] mono2 [OF i] fresh by auto
    qed
    have sub: "set (plan_names (new1 @ new2)) \<subseteq> cell_ptr ` set luts"
    proof -
      have "cell_ptr (luts ! idx_a c) \<in> cell_ptr ` set luts" "cell_ptr (luts ! idx_b c) \<in> cell_ptr ` set luts"
        using ra rb by simp_all
      with names1 sub2 set1 show ?thesis by (auto simp: plan_names_def)
    qed
    from p2 ft dn iff sub show ?thesis by auto
  qed
qed

text \<open>
  C5. Over one run of \<open>PlanMerges\<close> (candidates in any order, each naming two different
  LUTs of the list, whose cells are pairwise different): the LUT list changes in claimed
  flags only and no flag goes back from true to false; no cell is named twice by the plans,
  so no LUT is in two plans; a LUT's flag is set in the run exactly when its cell is named
  by a plan, hence at most once; every plan names cells of the list. At each candidate:
  if one of its LUTs is already claimed it is skipped (nothing changes, no plan), and when
  a plan is pushed both LUTs were unclaimed before and are claimed after.
\<close>

theorem claimed_at_most_once:
  assumes "PlanMerges uniquify log_id luts candidates = Inr (luts', plans)"
    and "distinct (map cell_ptr luts)"
    and "\<forall>c \<in> set candidates. idx_a c \<noteq> idx_b c"
  shows "flags_only luts luts'
     \<and> distinct (plan_names plans)
     \<and> (\<forall>i<length luts. cell_ptr (luts ! i) \<in> set (plan_names plans)
            \<longleftrightarrow> \<not> is_merged (luts ! i) \<and> is_merged (luts' ! i))
     \<and> set (plan_names plans) \<subseteq> cell_ptr ` set luts
     \<and> (\<forall>c ls ls' new. plan_candidate uniquify log_id ls c = Inr (ls', new) \<longrightarrow>
           (is_merged (ls ! idx_a c) \<or> is_merged (ls ! idx_b c) \<longrightarrow> ls' = ls \<and> new = [])
         \<and> (new \<noteq> [] \<longrightarrow> \<not> is_merged (ls ! idx_a c) \<and> \<not> is_merged (ls ! idx_b c)
                         \<and> is_merged (ls' ! idx_a c) \<and> is_merged (ls' ! idx_b c)))"
proof -
  from PlanMerges_loop_inv [OF assms(1) [unfolded PlanMerges_def] assms(2) assms(3)]
  have main: "flags_only luts luts' \<and> distinct (plan_names plans)
     \<and> (\<forall>i<length luts. cell_ptr (luts ! i) \<in> set (plan_names plans)
            \<longleftrightarrow> \<not> is_merged (luts ! i) \<and> is_merged (luts' ! i))
     \<and> set (plan_names plans) \<subseteq> cell_ptr ` set luts"
    by simp
  have step: "\<forall>c ls ls' new. plan_candidate uniquify log_id ls c = Inr (ls', new) \<longrightarrow>
           (is_merged (ls ! idx_a c) \<or> is_merged (ls ! idx_b c) \<longrightarrow> ls' = ls \<and> new = [])
         \<and> (new \<noteq> [] \<longrightarrow> \<not> is_merged (ls ! idx_a c) \<and> \<not> is_merged (ls ! idx_b c)
                         \<and> is_merged (ls' ! idx_a c) \<and> is_merged (ls' ! idx_b c))"
  proof (intro allI impI)
    fix c ls ls' new
    assume "plan_candidate uniquify log_id ls c = Inr (ls', new)"
    note pc = plan_candidate_cases [OF this]
    then have r: "idx_a c < length ls" "idx_b c < length ls" by simp_all
    show "(is_merged (ls ! idx_a c) \<or> is_merged (ls ! idx_b c) \<longrightarrow> ls' = ls \<and> new = [])
         \<and> (new \<noteq> [] \<longrightarrow> \<not> is_merged (ls ! idx_a c) \<and> \<not> is_merged (ls ! idx_b c)
                         \<and> is_merged (ls' ! idx_a c) \<and> is_merged (ls' ! idx_b c))"
      using pc r by (auto simp: claim_both_nth)
  qed
  from main step show ?thesis by blast
qed

lemma ex3_run:
  "(case PlanMerges id id ex_luts3 (priority_queue_of (FindMergeCandidates_Global ex_luts3)) of
      Inl e \<Rightarrow> False
    | Inr (luts', plans) \<Rightarrow> map is_merged luts' = [True, True, False]
         \<and> plan_names plans = [''L0'', ''L1''])"
  by code_simp

lemma ex3_cands:
  "map (\<lambda>c. (idx_a c, idx_b c, score c)) (priority_queue_of (FindMergeCandidates_Global ex_luts3))
     = [(0, 1, 198), (0, 2, 97), (1, 2, 97)]"
  by code_simp

theorem claimed_at_most_once_witness:
  "\<exists>luts' plans.
     PlanMerges id id ex_luts3 (priority_queue_of (FindMergeCandidates_Global ex_luts3)) = Inr (luts', plans)
     \<and> map is_merged luts' = [True, True, False]
     \<and> plan_names plans = [''L0'', ''L1'']
     \<and> flags_only ex_luts3 luts'
     \<and> distinct (plan_names plans)"
proof -
  let ?cands = "priority_queue_of (FindMergeCandidates_Global ex_luts3)"
  from ex3_run obtain luts' plans where
    r: "PlanMerges id id ex_luts3 ?cands = Inr (luts', plans)"
    and v: "map is_merged luts' = [True, True, False]" "plan_names plans = [''L0'', ''L1'']"
    by (auto split: sum.splits)
  have d: "distinct (map cell_ptr ex_luts3)"
    by (simp add: ex_luts3_def ex_lut_def)
  have "map (\<lambda>c. (idx_a c, idx_b c)) ?cands = [(0, 1), (0, 2), (1, 2)]"
    using ex3_cands [THEN arg_cong, of "map (\<lambda>(a, b, s). (a, b))"] by (simp add: comp_def)
  then have "\<forall>p \<in> set (map (\<lambda>c. (idx_a c, idx_b c)) ?cands). fst p \<noteq> snd p"
    by simp
  then have n: "\<forall>c \<in> set ?cands. idx_a c \<noteq> idx_b c"
    by simp
  from claimed_at_most_once [OF r d n]
  have "flags_only ex_luts3 luts' \<and> distinct (plan_names plans)" by simp
  with r v show ?thesis
    by - (rule exI [of _ luts'], rule exI [of _ plans], simp)
qed

section \<open>Exactness of the fused table\<close>





lemma find_pos_None: "x \<notin> set xs \<Longrightarrow> find_pos xs x = None"
  by (induction xs) auto







lemma pool_insert_all_distinct: "distinct p \<Longrightarrow> distinct (pool_insert_all p xs)"
  unfolding pool_insert_all_def
  by (induction xs arbitrary: p) (auto simp: pool_insert_def)





text \<open>
  C2 at its failing input. The LUT of six inputs is 1 exactly when all its inputs are 0,
  the LUT of five inputs is constant 0 over the first five wires, the selector is wire 5.
  The tables agree where the selector is 1 and differ where it is 0, and the legality test
  accepts the pair on the match at 1. The plan binds the Z pin to the output of the LUT of
  six inputs and gives the fused cell a table of 64 zeros, so that no pin of the fused
  cell can give the 1 the absorbed LUT of six inputs gives when all inputs are 0.
\<close>

theorem absorb_sel1_failing_input:
  "CanLut6AbsorbLutS (ex_absorb ! 0) (ex_absorb ! 1) = Some (SigWire 5)
   \<and> \<not> sel_is_0_match (ex_absorb ! 0) (ex_absorb ! 1) (SigWire 5)
   \<and> sel_is_1_match (ex_absorb ! 0) (ex_absorb ! 1) (SigWire 5)
   \<and> (case PlanMerges id id ex_absorb (priority_queue_of (FindMergeCandidates_Global ex_absorb)) of
        Inl e \<Rightarrow> False
      | Inr (luts', plans) \<Rightarrow>
          map (\<lambda>p. (init_val_plan p, map_of (port_connections p) (escaped ''Z''),
                     map_of (port_connections p) (escaped ''I5''))) plans
            = [(replicate 64 S0, Some (output_sig (ex_absorb ! 0)), Some (SigWire 5))])
   \<and> lut_eval (ex_absorb ! 0) (\<lambda>s. False) = S1"
  by code_simp

section \<open>Legality and score of the candidates\<close>

lemma check_shared_inputs_emits:
  "check_shared_inputs luts i j \<noteq> []
     \<longleftrightarrow> length (current_union_inputs (luts ! i) (luts ! j)) \<le> 5 \<and> 1 \<le> shared_count (luts ! i) (luts ! j)"
  by (simp add: check_shared_inputs_def shared_count_def Let_def)

lemma global_shared_body_emits:
  "global_shared_body luts i j \<noteq> []
     \<longleftrightarrow> length (current_union_inputs (luts ! i) (luts ! j)) \<le> 6 \<and> shared_count (luts ! i) (luts ! j) \<le> 5"
  by (simp add: global_shared_body_def shared_count_def Let_def)

lemma shared_candidate_fields:
  assumes "c \<in> set (check_shared_inputs luts i j) \<union> set (global_shared_body luts i j)"
  shows "idx_a c = i \<and> idx_b c = j \<and> type_m c = SHARED_INPUTS
     \<and> union_inputs c = current_union_inputs (luts ! i) (luts ! j)
     \<and> score c = shared_count (luts ! i) (luts ! j) * 100 - int (length (union_inputs c))"
  using assms
  by (auto simp: check_shared_inputs_def global_shared_body_def shared_count_def Let_def split: if_splits)

lemma global_shared_body_tested:
  assumes "i < j" "j < length luts"
  shows "set (global_shared_body luts i j) \<subseteq> set (FindMergeCandidates_Global luts)"
proof -
  have sub: "\<And>f xs x. x \<in> set xs \<Longrightarrow> set (f x) \<subseteq> set (concat (map f xs))"
    by auto
  from assms have i: "i \<in> set [0..<length luts]" and j: "j \<in> set [Suc i..<length luts]"
    by simp_all
  have "set (global_shared_body luts i j)
      \<subseteq> set (concat (map (\<lambda>j. global_shared_body luts i j) [Suc i..<length luts]))"
    using j by (rule sub)
  also have "\<dots> \<subseteq> set (concat (map (\<lambda>i. concat (map (\<lambda>j. global_shared_body luts i j)
      [Suc i..<length luts])) [0..<length luts]))"
    using i by (rule sub)
  finally show ?thesis
    unfolding FindMergeCandidates_Global_def set_append by blast
qed

lemma check_shared_inputs_tested:
  "set (check_shared_inputs luts a b) \<subseteq> set (layered_pair luts a b)"
  by (simp add: layered_pair_def)

text \<open>
  C3, as the claim states it, fails in both searches. In the layered search two LUTs of one
  input over independent wires (union of size 2) give no candidate. In the exhaustive
  search a LUT of six inputs with a LUT of one input on one of its wires (union of size 6)
  gives a SHARED_INPUTS candidate, of score 94.
\<close>

theorem shared_emission_counterexample:
  "length (current_union_inputs (ex_xy ! 0) (ex_xy ! 1)) = 2
   \<and> check_shared_inputs ex_xy 0 1 = []
   \<and> length (current_union_inputs (ex_wide ! 0) (ex_wide ! 1)) = 6
   \<and> map (\<lambda>c. (idx_a c, idx_b c, score c, type_m c)) (global_shared_body ex_wide 0 1)
        = [(0, 1, 94, SHARED_INPUTS)]"
  by code_simp

text \<open>
  C3, amended. In the layered search a tested pair gives a SHARED_INPUTS candidate exactly
  when the union of the inputs has at most five signals and the pair shares at least one
  input. In the exhaustive search a tested pair whose union has at most five signals gives
  one exactly when it shares at most five inputs. In both, the candidate names the pair,
  carries the union, and its score is shared_count * 100 - union size, with shared_count =
  size_a + size_b - union size. The exhaustive search tests every pair \<open>i < j\<close> of the list.
\<close>

theorem shared_inputs_emission:
  "(check_shared_inputs luts i j \<noteq> []
      \<longleftrightarrow> length (current_union_inputs (luts ! i) (luts ! j)) \<le> 5
          \<and> 1 \<le> shared_count (luts ! i) (luts ! j))
   \<and> (length (current_union_inputs (luts ! i) (luts ! j)) \<le> 5 \<longrightarrow>
        (global_shared_body luts i j \<noteq> [] \<longleftrightarrow> shared_count (luts ! i) (luts ! j) \<le> 5))
   \<and> (\<forall>c \<in> set (check_shared_inputs luts i j) \<union> set (global_shared_body luts i j).
         idx_a c = i \<and> idx_b c = j \<and> type_m c = SHARED_INPUTS
         \<and> union_inputs c = current_union_inputs (luts ! i) (luts ! j)
         \<and> score c = shared_count (luts ! i) (luts ! j) * 100 - int (length (union_inputs c)))
   \<and> (i < j \<and> j < length luts \<longrightarrow>
         set (global_shared_body luts i j) \<subseteq> set (FindMergeCandidates_Global luts))
   \<and> set (check_shared_inputs luts i j) \<subseteq> set (layered_pair luts i j)"
proof -
  have f: "\<forall>c \<in> set (check_shared_inputs luts i j) \<union> set (global_shared_body luts i j).
         idx_a c = i \<and> idx_b c = j \<and> type_m c = SHARED_INPUTS
         \<and> union_inputs c = current_union_inputs (luts ! i) (luts ! j)
         \<and> score c = shared_count (luts ! i) (luts ! j) * 100 - int (length (union_inputs c))"
    using shared_candidate_fields [of _ luts i j] by blast
  have g: "length (current_union_inputs (luts ! i) (luts ! j)) \<le> 5 \<longrightarrow>
        (global_shared_body luts i j \<noteq> [] \<longleftrightarrow> shared_count (luts ! i) (luts ! j) \<le> 5)"
    by (simp add: global_shared_body_emits)
  have t: "i < j \<and> j < length luts \<longrightarrow>
         set (global_shared_body luts i j) \<subseteq> set (FindMergeCandidates_Global luts)"
    using global_shared_body_tested [of i j luts] by blast
  from check_shared_inputs_emits [of luts i j] g f t check_shared_inputs_tested [of luts i j]
  show ?thesis by blast
qed

theorem shared_inputs_emission_witness:
  "length (current_union_inputs (ex_luts3 ! 0) (ex_luts3 ! 1)) = 2
   \<and> shared_count (ex_luts3 ! 0) (ex_luts3 ! 1) = 2
   \<and> check_shared_inputs ex_luts3 0 1 \<noteq> []
   \<and> global_shared_body ex_luts3 0 1 \<noteq> []
   \<and> map score (check_shared_inputs ex_luts3 0 1) = [198]
   \<and> map score (global_shared_body ex_luts3 0 1) = [198]
   \<and> set (global_shared_body ex_luts3 0 1) \<subseteq> set (FindMergeCandidates_Global ex_luts3)"
proof -
  have u: "length (current_union_inputs (ex_luts3 ! 0) (ex_luts3 ! 1)) = 2" by code_simp
  have s: "shared_count (ex_luts3 ! 0) (ex_luts3 ! 1) = 2" by code_simp
  have n: "length ex_luts3 = 3" by code_simp
  have a: "map score (check_shared_inputs ex_luts3 0 1) = [198]" by code_simp
  have b: "map score (global_shared_body ex_luts3 0 1) = [198]" by code_simp
  from shared_inputs_emission [of ex_luts3 0 1] u s n
  have "check_shared_inputs ex_luts3 0 1 \<noteq> [] \<and> global_shared_body ex_luts3 0 1 \<noteq> []
     \<and> set (global_shared_body ex_luts3 0 1) \<subseteq> set (FindMergeCandidates_Global ex_luts3)"
    by simp
  with u s a b show ?thesis by simp
qed

text \<open>
  C4 at its failing input. In the exhaustive search the LUT at \<open>j\<close> is not required to be
  smaller than six inputs: two LUTs of size 6, the second with one wire on two ports and
  all its wires among those of the first, give an ABSORB candidate of score 10600. The
  layered search, which checks the size, gives none for that pair.
\<close>

theorem absorb_arity_failing_input:
  "size_lut (ex_dup ! 0) = 6 \<and> size_lut (ex_dup ! 1) = 6
   \<and> map (\<lambda>c. (idx_a c, idx_b c, score c, type_m c, discovered_sel_bit c))
        (filter (\<lambda>c. type_m c = LUT6_ABSORB) (FindMergeCandidates_Global ex_dup))
        = [(0, 1, 10600, LUT6_ABSORB, SigWire 5)]"
  by code_simp

lemma absorb_arity_layered_rejects: "check_lut6_absorb ex_dup 0 1 = []"
  by code_simp

text \<open>
  What the layered search guarantees for an ABSORB candidate, and the order of the scores
  when sizes are between 0 and 6.
\<close>

lemma check_lut6_absorb_sound:
  assumes "c \<in> set (check_lut6_absorb luts idx_6 idx_s)"
  shows "size_lut (luts ! idx_6) = 6 \<and> size_lut (luts ! idx_s) < 6
     \<and> snd ` set (ordered_inputs (luts ! idx_s)) \<subseteq> snd ` set (ordered_inputs (luts ! idx_6))
     \<and> potential_sel_bits (luts ! idx_6) (luts ! idx_s) = [discovered_sel_bit c]
     \<and> (sel_is_0_match (luts ! idx_6) (luts ! idx_s) (discovered_sel_bit c)
          \<or> sel_is_1_match (luts ! idx_6) (luts ! idx_s) (discovered_sel_bit c))
     \<and> type_m c = LUT6_ABSORB \<and> idx_a c = idx_6 \<and> idx_b c = idx_s
     \<and> score c = 10000 + 100 * size_lut (luts ! idx_s)"
proof -
  let ?l6 = "luts ! idx_6" and ?ls = "luts ! idx_s"
  from assms have sz: "size_lut ?l6 = 6" "size_lut ?ls < 6" and sub: "is_subset ?l6 ?ls"
    by (auto simp: check_lut6_absorb_def Let_def split: if_splits)
  with assms obtain sel where can: "CanLut6AbsorbLutS ?l6 ?ls = Some sel"
    and c: "c = \<lparr>idx_a = idx_6, idx_b = idx_s, score = 10000 + size_lut ?ls * 100,
                  union_inputs = inputs_pool ?l6, type_m = LUT6_ABSORB, discovered_sel_bit = sel\<rparr>"
    by (cases "CanLut6AbsorbLutS ?l6 ?ls") (auto simp: check_lut6_absorb_def Let_def)
  from can have len: "length (potential_sel_bits ?l6 ?ls) = 1"
    and m: "sel = potential_sel_bits ?l6 ?ls ! 0"
      "sel_is_0_match ?l6 ?ls sel \<or> sel_is_1_match ?l6 ?ls sel"
    by (auto simp: CanLut6AbsorbLutS_def Let_def split: if_splits)
  from len m(1) have one: "potential_sel_bits ?l6 ?ls = [sel]"
    by (cases "potential_sel_bits ?l6 ?ls") auto
  have pset: "\<And>p xs. set (foldl pool_insert p xs) = set p \<union> set xs"
    subgoal for p xs by (induction xs arbitrary: p) (auto simp: pool_insert_def)
    done
  from sub have "snd ` set (ordered_inputs ?ls) \<subseteq> snd ` set (ordered_inputs ?l6)"
    by (auto simp: is_subset_def inputs_pool_def pool_insert_all_def pool_iter_def pool_count_def pset)
  with sz one m(2) c show ?thesis by simp
qed

lemma absorb_outranks_shared:
  assumes "c \<in> set (check_lut6_absorb luts a b) \<union> set (global_absorb_body luts a b)"
    and "d \<in> set (check_shared_inputs luts i j) \<union> set (global_shared_body luts i j)"
    and "\<forall>l \<in> set luts. 0 \<le> size_lut l \<and> size_lut l \<le> 6"
    and "a < length luts" "b < length luts" "i < length luts" "j < length luts"
  shows "score d < score c"
proof -
  from assms(3,4,5,6,7) have b: "0 \<le> size_lut (luts ! b)" "size_lut (luts ! i) \<le> 6" "size_lut (luts ! j) \<le> 6"
    by (auto simp: all_set_conv_all_nth)
  from assms(1) have c: "score c = 10000 + size_lut (luts ! b) * 100"
    by (auto simp: check_lut6_absorb_def global_absorb_body_def Let_def split: if_splits option.splits)
  from assms(2) have d: "score d \<le> (size_lut (luts ! i) + size_lut (luts ! j)) * 100"
    by (auto simp: check_shared_inputs_def global_shared_body_def Let_def split: if_splits)
  from b c d show ?thesis by simp
qed

section \<open>Leveling: termination, levels and cycles\<close>

lemma output_sig_to_lut_Some:
  assumes "output_sig_to_lut luts sig = Some i"
  shows "i < length luts \<and> output_sig (luts ! i) = sig"
proof -
  from assms obtain rest where
    "filter (\<lambda>i. output_sig (luts ! i) = sig) (rev [0..<length luts]) = i # rest"
    by (auto simp: output_sig_to_lut_def split: list.splits)
  then have "i \<in> set (filter (\<lambda>i. output_sig (luts ! i) = sig) (rev [0..<length luts]))"
    by simp
  then show ?thesis by simp
qed

lemma output_sig_to_lut_distinct:
  assumes "distinct (map output_sig luts)" "i < length luts"
  shows "output_sig_to_lut luts (output_sig (luts ! i)) = Some i"
proof -
  have "i \<in> set (filter (\<lambda>j. output_sig (luts ! j) = output_sig (luts ! i)) (rev [0..<length luts]))"
    using assms(2) by simp
  then obtain j rest where
    f: "filter (\<lambda>j. output_sig (luts ! j) = output_sig (luts ! i)) (rev [0..<length luts]) = j # rest"
    by (cases "filter (\<lambda>j. output_sig (luts ! j) = output_sig (luts ! i)) (rev [0..<length luts])") auto
  then have "j \<in> set (filter (\<lambda>j. output_sig (luts ! j) = output_sig (luts ! i)) (rev [0..<length luts]))"
    by simp
  then have "j < length luts" "output_sig (luts ! j) = output_sig (luts ! i)" by simp_all
  with assms have "j = i"
    by (metis distinct_conv_nth length_map nth_map)
  with f show ?thesis by (simp add: output_sig_to_lut_def)
qed

lemma drivers_of_bound: "drivers_of luts s \<subseteq> {..<length luts}"
  using output_sig_to_lut_Some by (fastforce simp: drivers_of_def)

lemma finite_drivers_of: "finite (drivers_of luts s)"
  using drivers_of_bound finite_subset by blast

text \<open>What \<open>add_edges\<close> does to the graph and to the in-degree of \<open>src\<close>.\<close>

lemma add_edges_result:
  assumes "\<forall>sig u. drv sig = Some u \<longrightarrow> u < length g"
    and "src < length d"
    and "add_edges drv src sigs (g, d) = (g', d')"
  shows "length g' = length g \<and> length d' = length d
     \<and> (\<forall>u<length g. set (g' ! u) = set (g ! u) \<union> (if \<exists>sig \<in> set sigs. drv sig = Some u then {src} else {})
            \<and> (distinct (g ! u) \<longrightarrow> distinct (g' ! u)))
     \<and> (\<forall>t. t \<noteq> src \<longrightarrow> d' ! t = d ! t)
     \<and> d' ! src = d ! src + int (card {u. (\<exists>sig \<in> set sigs. drv sig = Some u) \<and> src \<notin> set (g ! u)})"
  using assms
proof (induction sigs arbitrary: g d)
  case Nil
  then show ?case by simp
next
  case (Cons sig sigs)
  show ?case
  proof (cases "drv sig")
    case None
    with Cons.prems(3) have r: "add_edges drv src sigs (g, d) = (g', d')" by simp
    from Cons.IH [OF Cons.prems(1) Cons.prems(2) r] None show ?thesis
      by (simp cong: conj_cong)
  next
    case (Some u)
    with Cons.prems(1) have ug: "u < length g" by blast
    show ?thesis
    proof (cases "src \<in> set (g ! u)")
      case True
      with Some Cons.prems(3) have r: "add_edges drv src sigs (g, d) = (g', d')"
        by (simp add: pool_count_def)
      note ih = Cons.IH [OF Cons.prems(1) Cons.prems(2) r]
      have seteq: "{u'. (\<exists>s \<in> set (sig # sigs). drv s = Some u') \<and> src \<notin> set (g ! u')}
          = {u'. (\<exists>s \<in> set sigs. drv s = Some u') \<and> src \<notin> set (g ! u')}"
        using Some True by auto
      have "\<forall>u'<length g. set (g' ! u') = set (g ! u') \<union> (if \<exists>s \<in> set (sig # sigs). drv s = Some u' then {src} else {})
            \<and> (distinct (g ! u') \<longrightarrow> distinct (g' ! u'))"
        using ih Some True by auto
      with ih seteq show ?thesis by simp
    next
      case False
      let ?g1 = "g[u := pool_insert (g ! u) src]"
      let ?d1 = "d[src := d ! src + 1]"
      from False Some Cons.prems(3) have r: "add_edges drv src sigs (?g1, ?d1) = (g', d')"
        by (simp add: pool_count_def)
      have p1: "\<forall>sig u. drv sig = Some u \<longrightarrow> u < length ?g1" using Cons.prems(1) by simp
      have p2: "src < length ?d1" using Cons.prems(2) by simp
      note ih = Cons.IH [OF p1 p2 r]
      have g1u: "set (?g1 ! u) = insert src (set (g ! u))" "distinct (g ! u) \<longrightarrow> distinct (?g1 ! u)"
        using ug False by (simp_all add: pool_insert_def)
      have g1o: "\<And>u'. u' \<noteq> u \<Longrightarrow> ?g1 ! u' = g ! u'" by simp
      let ?B = "{u'. (\<exists>s \<in> set sigs. drv s = Some u') \<and> src \<notin> set (?g1 ! u')}"
      have Bfin: "finite ?B"
      proof (rule finite_subset)
        show "?B \<subseteq> {..<length g}" using Cons.prems(1) by auto
      qed simp
      have uB: "u \<notin> ?B" using g1u by simp
      have seteq: "{u'. (\<exists>s \<in> set (sig # sigs). drv s = Some u') \<and> src \<notin> set (g ! u')} = insert u ?B"
      proof (rule set_eqI)
        fix x
        show "x \<in> {u'. (\<exists>s \<in> set (sig # sigs). drv s = Some u') \<and> src \<notin> set (g ! u')} \<longleftrightarrow> x \<in> insert u ?B"
        proof (cases "x = u")
          case True
          then show ?thesis using Some False by auto
        next
          case xu: False
          then have "drv sig \<noteq> Some x" using Some by simp
          with xu g1o [of x] show ?thesis by auto
        qed
      qed
      have cardeq: "int (card {u'. (\<exists>s \<in> set (sig # sigs). drv s = Some u') \<and> src \<notin> set (g ! u')})
          = 1 + int (card ?B)"
        unfolding seteq using Bfin uB by simp
      have sets: "\<forall>u'<length g. set (g' ! u') = set (g ! u') \<union> (if \<exists>s \<in> set (sig # sigs). drv s = Some u' then {src} else {})
            \<and> (distinct (g ! u') \<longrightarrow> distinct (g' ! u'))"
      proof (intro allI impI)
        fix u' assume u': "u' < length g"
        with ih have a: "set (g' ! u') = set (?g1 ! u') \<union> (if \<exists>s \<in> set sigs. drv s = Some u' then {src} else {})"
          and b: "distinct (?g1 ! u') \<longrightarrow> distinct (g' ! u')" by simp_all
        show "set (g' ! u') = set (g ! u') \<union> (if \<exists>s \<in> set (sig # sigs). drv s = Some u' then {src} else {})
            \<and> (distinct (g ! u') \<longrightarrow> distinct (g' ! u'))"
        proof (cases "u' = u")
          case True
          with a b g1u Some show ?thesis by auto
        next
          case False
          then have "drv sig \<noteq> Some u'" using Some by simp
          with a b g1o [OF False] show ?thesis by auto
        qed
      qed
      have dsrc: "d' ! src = d ! src + int (card {u'. (\<exists>s \<in> set (sig # sigs). drv s = Some u') \<and> src \<notin> set (g ! u')})"
        using ih Cons.prems(2) cardeq by simp
      have doth: "\<forall>t. t \<noteq> src \<longrightarrow> d' ! t = d ! t" using ih by simp
      from ih sets dsrc doth show ?thesis by simp
    qed
  qed
qed

lemma build_graph_alt:
  "build_graph luts = foldl (build_step luts) (replicate (length luts) [], replicate (length luts) 0) [0..<length luts]"
  by (simp add: build_graph_def build_step_def)

lemma build_upto:
  assumes "k \<le> length luts"
    and "foldl (build_step luts) (replicate (length luts) [], replicate (length luts) 0) [0..<k] = (g, d)"
  shows "length g = length luts \<and> length d = length luts
     \<and> (\<forall>u<length luts. distinct (g ! u) \<and> set (g ! u) = {s. s < k \<and> u \<in> drivers_of luts s})
     \<and> (\<forall>s<k. d ! s = int (card (drivers_of luts s)))"
  using assms
proof (induction k arbitrary: g d)
  case 0
  then show ?case by auto
next
  case (Suc k)
  let ?n = "length luts"
  obtain g0 d0 where prev: "foldl (build_step luts) (replicate ?n [], replicate ?n 0) [0..<k] = (g0, d0)"
    by (cases "foldl (build_step luts) (replicate ?n [], replicate ?n 0) [0..<k]") blast
  from Suc.prems(1) have k: "k < ?n" by simp
  then have "k \<le> ?n" by simp
  note ih = Suc.IH [OF this prev]
  from Suc.prems(2) prev have step: "build_step luts (g0, d0) k = (g, d)" by simp
  let ?sigs = "map snd (ordered_inputs (luts ! k))"
  from step have ae: "add_edges (output_sig_to_lut luts) k ?sigs (g0, d0[k := 0]) = (g, d)"
    by (simp add: build_step_def)
  have a1: "\<forall>sig u. output_sig_to_lut luts sig = Some u \<longrightarrow> u < length g0"
    using ih output_sig_to_lut_Some by simp
  have a2: "k < length (d0[k := 0])" using ih k by simp
  note r = add_edges_result [OF a1 a2 ae]
  have drv_iff: "\<And>u. (\<exists>sig \<in> set ?sigs. output_sig_to_lut luts sig = Some u) = (u \<in> drivers_of luts k)"
    by (auto simp: drivers_of_def)
  from r have rs: "\<forall>u<length g0. set (g ! u) = set (g0 ! u) \<union> (if u \<in> drivers_of luts k then {k} else {})
            \<and> (distinct (g0 ! u) \<longrightarrow> distinct (g ! u))"
    unfolding drv_iff by blast
  from r have rk: "d ! k = d0[k := 0] ! k
      + int (card {u. u \<in> drivers_of luts k \<and> k \<notin> set (g0 ! u)})"
    unfolding drv_iff by blast
  from r have ro: "\<forall>t. t \<noteq> k \<longrightarrow> d ! t = d0[k := 0] ! t" by blast
  have lens: "length g = ?n" "length d = ?n" using r ih by simp_all
  have sets: "\<forall>u<?n. distinct (g ! u) \<and> set (g ! u) = {s. s < Suc k \<and> u \<in> drivers_of luts s}"
  proof (intro allI impI)
    fix u assume u: "u < ?n"
    with ih have d0: "distinct (g0 ! u)" and s0: "set (g0 ! u) = {s. s < k \<and> u \<in> drivers_of luts s}"
      by simp_all
    from rs u ih have "set (g ! u) = set (g0 ! u) \<union> (if u \<in> drivers_of luts k then {k} else {})"
      and "distinct (g ! u)"
      using d0 by simp_all
    with s0 show "distinct (g ! u) \<and> set (g ! u) = {s. s < Suc k \<and> u \<in> drivers_of luts s}"
      by (auto simp: less_Suc_eq)
  qed
  have knew: "{u. u \<in> drivers_of luts k \<and> k \<notin> set (g0 ! u)} = drivers_of luts k"
  proof -
    have "\<And>u. u \<in> drivers_of luts k \<Longrightarrow> k \<notin> set (g0 ! u)"
    proof -
      fix u assume "u \<in> drivers_of luts k"
      then have "u < ?n" using drivers_of_bound by blast
      with ih have "set (g0 ! u) = {s. s < k \<and> u \<in> drivers_of luts s}" by simp
      then show "k \<notin> set (g0 ! u)" by simp
    qed
    then show ?thesis by auto
  qed
  have degs: "\<forall>s<Suc k. d ! s = int (card (drivers_of luts s))"
  proof (intro allI impI)
    fix s assume s: "s < Suc k"
    show "d ! s = int (card (drivers_of luts s))"
    proof (cases "s = k")
      case True
      from rk have "d ! k = d0[k := 0] ! k + int (card (drivers_of luts k))"
        unfolding knew by simp
      with a2 True show ?thesis by simp
    next
      case False
      with s have sk: "s < k" by simp
      from ro False have "d ! s = d0[k := 0] ! s" by simp
      with False sk ih show ?thesis by simp
    qed
  qed
  from lens sets degs show ?case by simp
qed

lemma build_graph_ok:
  assumes "build_graph luts = (g, deg)"
  shows "length g = length luts \<and> graph_ok g deg \<and> (\<forall>v<length luts. preds g v = drivers_of luts v)"
proof -
  from assms have "foldl (build_step luts) (replicate (length luts) [], replicate (length luts) 0) [0..<length luts] = (g, deg)"
    by (simp add: build_graph_alt)
  from build_upto [OF le_refl this]
  have len: "length g = length luts" "length deg = length luts"
    and sets: "\<forall>u<length luts. distinct (g ! u) \<and> set (g ! u) = {s. s < length luts \<and> u \<in> drivers_of luts s}"
    and degs: "\<forall>s<length luts. deg ! s = int (card (drivers_of luts s))"
    by simp_all
  have pr: "\<forall>v<length luts. preds g v = drivers_of luts v"
  proof (intro allI impI)
    fix v assume v: "v < length luts"
    show "preds g v = drivers_of luts v"
      using sets v len drivers_of_bound [of luts v] by (auto simp: preds_def)
  qed
  have "graph_ok g deg"
    unfolding graph_ok_def using len sets degs pr by auto
  with len pr show ?thesis by simp
qed

lemma relax_result:
  assumes "distinct ds"
    and "\<forall>d \<in> set ds. d < length (lut_levels s) \<and> d < length (lut_in_degree s)"
  shows "\<exists>s'. relax cl ds s = Inr s'
     \<and> q s' = q s @ filter (\<lambda>d. lut_in_degree s ! d = 1) ds
     \<and> length (lut_in_degree s') = length (lut_in_degree s)
     \<and> (\<forall>v<length (lut_in_degree s). lut_in_degree s' ! v = lut_in_degree s ! v - (if v \<in> set ds then 1 else 0))
     \<and> length (lut_levels s') = length (lut_levels s)
     \<and> (\<forall>v<length (lut_levels s). lut_levels s' ! v
            = (if v \<in> set ds then bump_level cl (lut_levels s ! v) else lut_levels s ! v))
     \<and> processed_count s' = processed_count s"
  using assms
proof (induction ds arbitrary: s)
  case Nil
  then show ?case by simp
next
  case (Cons d ds)
  let ?lev = "(lut_levels s)[d := bump_level cl (lut_levels s ! d)]"
  let ?deg = "(lut_in_degree s)[d := lut_in_degree s ! d - 1]"
  let ?q = "(if lut_in_degree s ! d = 1 then q s @ [d] else q s)"
  let ?s1 = "s\<lparr>q := ?q, lut_in_degree := ?deg, lut_levels := ?lev\<rparr>"
  from Cons.prems(2) have dl: "d < length (lut_levels s)" and dd: "d < length (lut_in_degree s)"
    by simp_all
  have lev_eq: "(case lut_levels s ! d of
                          None \<Rightarrow> (lut_levels s)[d := Some (cl + 1)]
                        | Some l \<Rightarrow> if cl + 1 > l then (lut_levels s)[d := Some (cl + 1)]
                                    else lut_levels s) = ?lev"
  proof (cases "lut_levels s ! d")
    case None
    then show ?thesis by (simp add: bump_level_def)
  next
    case (Some l)
    show ?thesis
    proof (cases "cl + 1 > l")
      case True
      with Some show ?thesis by (simp add: bump_level_def max_def)
    next
      case False
      then have m: "max l (cl + 1) = l" by simp
      have "(lut_levels s)[d := Some l] = lut_levels s"
        using Some by (metis list_update_id)
      with Some False m show ?thesis
        by (simp add: bump_level_def)
    qed
  qed
  have q_eq: "(if ?deg ! d = 0 then q s @ [d] else q s) = ?q"
    using dd by auto
  have step: "relax cl (d # ds) s = relax cl ds ?s1"
    using dl dd lev_eq q_eq by (simp add: Let_def)
  from Cons.prems have dist: "distinct ds" and dnot: "d \<notin> set ds"
    and rng: "\<forall>x \<in> set ds. x < length (lut_levels ?s1) \<and> x < length (lut_in_degree ?s1)"
    by simp_all
  from Cons.IH [OF dist rng] obtain s' where
    r: "relax cl ds ?s1 = Inr s'"
    and rq: "q s' = ?q @ filter (\<lambda>x. ?deg ! x = 1) ds"
    and rld: "length (lut_in_degree s') = length (lut_in_degree s)"
    and rd: "\<forall>v<length (lut_in_degree s). lut_in_degree s' ! v = ?deg ! v - (if v \<in> set ds then 1 else 0)"
    and rll: "length (lut_levels s') = length (lut_levels s)"
    and rl: "\<forall>v<length (lut_levels s). lut_levels s' ! v
            = (if v \<in> set ds then bump_level cl (?lev ! v) else ?lev ! v)"
    and rp: "processed_count s' = processed_count s"
    by auto
  have f: "filter (\<lambda>x. ?deg ! x = 1) ds = filter (\<lambda>x. lut_in_degree s ! x = 1) ds"
  proof (rule filter_cong [OF refl])
    fix x assume "x \<in> set ds"
    with dnot have "x \<noteq> d" by blast
    then show "(?deg ! x = 1) = (lut_in_degree s ! x = 1)" by simp
  qed
  have q': "q s' = q s @ filter (\<lambda>x. lut_in_degree s ! x = 1) (d # ds)"
    using rq f by simp
  have d': "\<forall>v<length (lut_in_degree s). lut_in_degree s' ! v
      = lut_in_degree s ! v - (if v \<in> set (d # ds) then 1 else 0)"
    using rd dnot dd by (auto simp: nth_list_update)
  have l': "\<forall>v<length (lut_levels s). lut_levels s' ! v
            = (if v \<in> set (d # ds) then bump_level cl (lut_levels s ! v) else lut_levels s ! v)"
    using rl dnot dl by (auto simp: nth_list_update)
  from step r q' rld d' rll l' rp show ?case by simp
qed

lemma preds_bound: "preds g v \<subseteq> {..<length g}"
  by (auto simp: preds_def)

lemma finite_preds: "finite (preds g v)"
  using preds_bound finite_subset by blast

lemma preds_iff: "u < length g \<Longrightarrow> u \<in> preds g v \<longleftrightarrow> v \<in> set (g ! u)"
  by (simp add: preds_def)

lemma kahn_step:
  assumes ok: "\<forall>u<length g. distinct (g ! u) \<and> set (g ! u) \<subseteq> {..<length g}"
    and inv: "kahn_inv g s D"
    and qs: "q s = cur # rest"
  shows "\<exists>cl s'. cur < length g \<and> lut_levels s ! cur = Some cl
     \<and> relax cl (pool_iter (g ! cur)) (s\<lparr>q := rest, processed_count := processed_count s + 1\<rparr>) = Inr s'
     \<and> kahn_inv g s' (insert cur D)"
proof -
  let ?n = "length g"
  let ?lev = "lut_levels s"
  from inv have sh: "inv_shape g s D" and dg: "inv_deg g s D" and lv: "inv_lev g ?lev D"
    by (simp_all add: kahn_inv_def)
  from sh qs have len: "length ?lev = ?n" "length (lut_in_degree s) = ?n"
    and dq: "distinct (cur # rest)" and qD: "set (cur # rest) \<inter> D = {}"
    and qb: "set (cur # rest) \<subseteq> {..<?n}" and Db: "D \<subseteq> {..<?n}"
    and cnt: "processed_count s = card D"
    by (simp_all add: inv_shape_def)
  from qb have cur: "cur < ?n" by simp
  from qD have curD: "cur \<notin> D" by simp
  from dq have curR: "cur \<notin> set rest" by simp
  have finD: "finite D" using Db finite_subset by blast
  from dg qs have deg: "\<forall>v<?n. lut_in_degree s ! v = int (card (preds g v - D))"
    and enq: "\<forall>v<?n. v \<in> set (cur # rest) \<union> D \<longleftrightarrow> preds g v \<subseteq> D"
    by (simp_all add: inv_deg_def)
  from lv have LA: "\<forall>v<?n. preds g v = {} \<longrightarrow> ?lev ! v = Some 0"
    and LB: "\<forall>v<?n. \<forall>u \<in> preds g v \<inter> D. \<exists>lu l. ?lev ! u = Some lu \<and> ?lev ! v = Some l \<and> lu + 1 \<le> l"
    and LC: "\<forall>v<?n. \<forall>l. ?lev ! v = Some l \<longrightarrow>
            (l = 0 \<and> preds g v = {}) \<or> (\<exists>u \<in> preds g v \<inter> D. ?lev ! u = Some (l - 1))"
    and LD: "\<forall>v<?n. \<forall>l. ?lev ! v = Some l \<longrightarrow> 0 \<le> l"
    by (simp_all add: inv_lev_def)
  have "cur \<in> set (cur # rest) \<union> D" by simp
  with enq cur have pcur: "preds g cur \<subseteq> D" by blast
  obtain cl where cl: "?lev ! cur = Some cl"
  proof (cases "preds g cur = {}")
    case True
    with LA cur that show ?thesis by blast
  next
    case False
    then obtain u where "u \<in> preds g cur" by blast
    with pcur have "u \<in> preds g cur \<inter> D" by blast
    with LB cur that show ?thesis by blast
  qed
  have cl0: "0 \<le> cl" using LD cur cl by blast
  let ?ds = "pool_iter (g ! cur)"
  let ?succ = "set (g ! cur)"
  have ds_dist: "distinct ?ds" and ds_set: "set ?ds = ?succ"
    using ok cur by (simp_all add: pool_iter_def)
  have succ_b: "?succ \<subseteq> {..<?n}" using ok cur by simp
  have succ_pred: "\<And>v. v \<in> ?succ \<longleftrightarrow> cur \<in> preds g v"
    using cur by (simp add: preds_iff)
  have succ_fresh: "\<And>v. v \<in> ?succ \<Longrightarrow> v \<notin> set (cur # rest) \<union> D"
  proof -
    fix v assume v: "v \<in> ?succ"
    then have "cur \<in> preds g v" by (simp add: succ_pred)
    with curD have "\<not> preds g v \<subseteq> D" by blast
    moreover from v succ_b have "v < ?n" by blast
    ultimately show "v \<notin> set (cur # rest) \<union> D" using enq by blast
  qed
  let ?s0 = "s\<lparr>q := rest, processed_count := processed_count s + 1\<rparr>"
  have rng: "\<forall>d \<in> set ?ds. d < length (lut_levels ?s0) \<and> d < length (lut_in_degree ?s0)"
    using ds_set succ_b len by auto
  from relax_result [OF ds_dist rng, of cl] obtain s' where
    r: "relax cl ?ds ?s0 = Inr s'"
    and rq: "q s' = rest @ filter (\<lambda>d. lut_in_degree s ! d = 1) ?ds"
    and rld: "length (lut_in_degree s') = ?n"
    and rd: "\<forall>v<?n. lut_in_degree s' ! v = lut_in_degree s ! v - (if v \<in> ?succ then 1 else 0)"
    and rll: "length (lut_levels s') = ?n"
    and rl: "\<forall>v<?n. lut_levels s' ! v = (if v \<in> ?succ then bump_level cl (?lev ! v) else ?lev ! v)"
    and rp: "processed_count s' = processed_count s + 1"
    using len ds_set by auto
  let ?D' = "insert cur D"
  let ?lev' = "lut_levels s'"
  have keep: "\<And>v. v < ?n \<Longrightarrow> v \<notin> ?succ \<Longrightarrow> ?lev' ! v = ?lev ! v"
    using rl by simp
  have keepD: "\<And>u. u \<in> ?D' \<Longrightarrow> ?lev' ! u = ?lev ! u"
  proof -
    fix u assume u: "u \<in> ?D'"
    then have "u \<in> set (cur # rest) \<union> D" by auto
    then have "u \<notin> ?succ" using succ_fresh by blast
    moreover from u cur Db have "u < ?n" by auto
    ultimately show "?lev' ! u = ?lev ! u" by (rule keep [rotated])
  qed
  \<comment> \<open>shape\<close>
  have shape': "inv_shape g s' ?D'"
  proof -
    have d1: "distinct (q s')"
    proof -
      have "set rest \<inter> set ?ds = {}" using succ_fresh ds_set by auto
      with dq ds_dist show ?thesis unfolding rq by auto
    qed
    have d2: "set (q s') \<inter> ?D' = {}"
    proof -
      have "set ?ds \<inter> ?D' = {}" using succ_fresh ds_set by auto
      moreover have "set rest \<inter> ?D' = {}" using qD curR by auto
      ultimately show ?thesis unfolding rq by auto
    qed
    have d3: "set (q s') \<subseteq> {..<?n}" unfolding rq using qb succ_b ds_set by auto
    have d4: "?D' \<subseteq> {..<?n}" using Db cur by simp
    have d5: "processed_count s' = card ?D'" using rp cnt finD curD by simp
    from rll rld d1 d2 d3 d4 d5 show ?thesis by (simp add: inv_shape_def)
  qed
  \<comment> \<open>in-degrees\<close>
  have deg': "\<forall>v<?n. lut_in_degree s' ! v = int (card (preds g v - ?D'))"
  proof (intro allI impI)
    fix v assume v: "v < ?n"
    have eq: "preds g v - ?D' = (preds g v - D) - {cur}" by auto
    show "lut_in_degree s' ! v = int (card (preds g v - ?D'))"
    proof (cases "v \<in> ?succ")
      case True
      then have "cur \<in> preds g v - D" using succ_pred curD by simp
      moreover have "finite (preds g v - D)" using finite_preds by simp
      ultimately have "card (preds g v - ?D') = card (preds g v - D) - 1" "card (preds g v - D) \<ge> 1"
        unfolding eq by (simp, metis One_nat_def Suc_leI card_gt_0_iff empty_iff)
      then have "int (card (preds g v - ?D')) = int (card (preds g v - D)) - 1" by simp
      with rd deg v True show ?thesis by simp
    next
      case False
      then have "cur \<notin> preds g v" using succ_pred by simp
      then have "preds g v - ?D' = preds g v - D" by auto
      with rd deg v False show ?thesis by simp
    qed
  qed
  have enq': "\<forall>v<?n. v \<in> set (q s') \<union> ?D' \<longleftrightarrow> preds g v \<subseteq> ?D'"
  proof (intro allI impI)
    fix v assume v: "v < ?n"
    show "v \<in> set (q s') \<union> ?D' \<longleftrightarrow> preds g v \<subseteq> ?D'"
    proof (cases "v \<in> ?succ")
      case True
      then have c: "cur \<in> preds g v - D" using succ_pred curD by simp
      have fin: "finite (preds g v - D)" using finite_preds by simp
      from True have notold: "v \<notin> set rest" "v \<notin> ?D'" using succ_fresh by auto
      have "v \<in> set (q s') \<longleftrightarrow> lut_in_degree s ! v = 1"
        unfolding rq using notold True ds_set by auto
      also have "\<dots> \<longleftrightarrow> card (preds g v - D) = 1" using deg v by simp
      also have "\<dots> \<longleftrightarrow> preds g v - D = {cur}"
      proof
        assume "card (preds g v - D) = 1"
        then obtain x where "preds g v - D = {x}" by (auto simp: card_1_singleton_iff)
        with c show "preds g v - D = {cur}" by auto
      next
        assume "preds g v - D = {cur}"
        then show "card (preds g v - D) = 1" by simp
      qed
      also have "\<dots> \<longleftrightarrow> preds g v \<subseteq> ?D'" using c by auto
      finally show ?thesis using notold by simp
    next
      case False
      then have nc: "cur \<notin> preds g v" using succ_pred by simp
      have "v \<in> set (q s') \<union> ?D' \<longleftrightarrow> v \<in> set (cur # rest) \<union> D"
        unfolding rq using False ds_set by auto
      also have "\<dots> \<longleftrightarrow> preds g v \<subseteq> D" using enq v by simp
      also have "\<dots> \<longleftrightarrow> preds g v \<subseteq> ?D'" using nc by auto
      finally show ?thesis .
    qed
  qed
  have dg': "inv_deg g s' ?D'" using deg' enq' by (simp add: inv_deg_def)
  \<comment> \<open>levels\<close>
  have LA': "\<forall>v<?n. preds g v = {} \<longrightarrow> ?lev' ! v = Some 0"
  proof (intro allI impI)
    fix v assume v: "v < ?n" and e: "preds g v = {}"
    then have "v \<notin> ?succ" using succ_pred by simp
    with keep v have "?lev' ! v = ?lev ! v" by simp
    with LA v e show "?lev' ! v = Some 0" by simp
  qed
  have bump_ge: "\<And>old l'. bump_level cl old = Some l' \<Longrightarrow> cl + 1 \<le> l' \<and> (\<forall>l. old = Some l \<longrightarrow> l \<le> l')"
    by (auto simp: bump_level_def split: option.splits)
  have bump_some: "\<And>old. \<exists>l'. bump_level cl old = Some l'"
    by (auto simp: bump_level_def split: option.splits)
  have LB': "\<forall>v<?n. \<forall>u \<in> preds g v \<inter> ?D'. \<exists>lu l. ?lev' ! u = Some lu \<and> ?lev' ! v = Some l \<and> lu + 1 \<le> l"
  proof (intro allI impI ballI)
    fix v u assume v: "v < ?n" and u: "u \<in> preds g v \<inter> ?D'"
    then have ku: "?lev' ! u = ?lev ! u" using keepD by simp
    show "\<exists>lu l. ?lev' ! u = Some lu \<and> ?lev' ! v = Some l \<and> lu + 1 \<le> l"
    proof (cases "v \<in> ?succ")
      case True
      from bump_some obtain l' where l': "bump_level cl (?lev ! v) = Some l'" by blast
      with rl v True have lv': "?lev' ! v = Some l'" by simp
      show ?thesis
      proof (cases "u = cur")
        case True
        with ku cl lv' bump_ge [OF l'] show ?thesis by simp
      next
        case False
        with u have "u \<in> preds g v \<inter> D" by simp
        with LB v obtain lu l where "?lev ! u = Some lu" "?lev ! v = Some l" "lu + 1 \<le> l" by blast
        with ku lv' bump_ge [OF l'] show ?thesis by fastforce
      qed
    next
      case False
      then have "cur \<notin> preds g v" using succ_pred by simp
      with u have "u \<in> preds g v \<inter> D" by auto
      with LB v obtain lu l where "?lev ! u = Some lu" "?lev ! v = Some l" "lu + 1 \<le> l" by blast
      with ku keep [OF v False] show ?thesis by simp
    qed
  qed
  have curD': "cur \<in> ?D'" by simp
  have LC': "\<forall>v<?n. \<forall>l. ?lev' ! v = Some l \<longrightarrow>
            (l = 0 \<and> preds g v = {}) \<or> (\<exists>u \<in> preds g v \<inter> ?D'. ?lev' ! u = Some (l - 1))"
  proof (intro allI impI)
    fix v l assume v: "v < ?n" and l: "?lev' ! v = Some l"
    show "(l = 0 \<and> preds g v = {}) \<or> (\<exists>u \<in> preds g v \<inter> ?D'. ?lev' ! u = Some (l - 1))"
    proof (cases "v \<in> ?succ")
      case True
      then have cp: "cur \<in> preds g v \<inter> ?D'" using succ_pred by simp
      from rl v True l have b: "bump_level cl (?lev ! v) = Some l" by simp
      show ?thesis
      proof (cases "l = cl + 1")
        case True
        then have "?lev' ! cur = Some (l - 1)" using keepD [OF curD'] cl by simp
        with cp show ?thesis by blast
      next
        case False
        with b obtain l0 where old: "?lev ! v = Some l0" and "l = max l0 (cl + 1)"
          by (auto simp: bump_level_def split: option.splits)
        with False have "l = l0" by (simp add: max_def split: if_splits)
        with old LC v cp obtain u where "u \<in> preds g v \<inter> D" "?lev ! u = Some (l - 1)" by blast
        then have "u \<in> preds g v \<inter> ?D'" "?lev' ! u = Some (l - 1)" using keepD [of u] by simp_all
        then show ?thesis by blast
      qed
    next
      case False
      with keep v l have "?lev ! v = Some l" by simp
      with LC v consider "l = 0 \<and> preds g v = {}" | u where "u \<in> preds g v \<inter> D" "?lev ! u = Some (l - 1)"
        by blast
      then show ?thesis
      proof cases
        case 1
        then show ?thesis by simp
      next
        case 2
        then have "u \<in> preds g v \<inter> ?D'" "?lev' ! u = Some (l - 1)" using keepD [of u] by simp_all
        then show ?thesis by blast
      qed
    qed
  qed
  have LD': "\<forall>v<?n. \<forall>l. ?lev' ! v = Some l \<longrightarrow> 0 \<le> l"
  proof (intro allI impI)
    fix v l assume v: "v < ?n" and l: "?lev' ! v = Some l"
    show "0 \<le> l"
    proof (cases "v \<in> ?succ")
      case True
      with rl v l have "bump_level cl (?lev ! v) = Some l" by simp
      from bump_ge [OF this] cl0 show ?thesis by simp
    next
      case False
      with keep v l LD show ?thesis by simp
    qed
  qed
  have lv': "inv_lev g ?lev' ?D'"
    unfolding inv_lev_def using LA' LB' LC' LD' by blast
  from shape' dg' lv' have "kahn_inv g s' ?D'" by (simp add: kahn_inv_def)
  with cur cl r show ?thesis by blast
qed

lemma kahn_loop_inv:
  assumes ok: "\<forall>u<length g. distinct (g ! u) \<and> set (g ! u) \<subseteq> {..<length g}"
  shows "kahn_inv g s D \<Longrightarrow> \<exists>s' D'. kahn_loop g s = Inr s' \<and> q s' = [] \<and> kahn_inv g s' D' \<and> D \<subseteq> D'"
  using ok
proof (induction g s arbitrary: D rule: kahn_loop.induct)
  case (1 g s)
  show ?case
  proof (cases "q s")
    case Nil
    then have "kahn_loop g s = Inr s" by (subst kahn_loop.simps) simp
    with Nil "1.prems"(1) show ?thesis
      by - (rule exI [of _ s], rule exI [of _ D], simp)
  next
    case (Cons cur rest)
    from kahn_step [OF "1.prems"(2) "1.prems"(1) Cons] obtain cl s1 where
      cur: "cur < length g" and cl: "lut_levels s ! cur = Some cl"
      and r: "relax cl (pool_iter (g ! cur)) (s\<lparr>q := rest, processed_count := processed_count s + 1\<rparr>) = Inr s1"
      and inv1: "kahn_inv g s1 (insert cur D)"
      by blast
    from "1.prems"(1) have "length (lut_levels s) = length g"
      by (simp add: kahn_inv_def inv_shape_def)
    with cur have nr: "\<not> (length (lut_levels s) \<le> cur \<or> length g \<le> cur)" by simp
    from "1.IH" [OF Cons nr cl r inv1 "1.prems"(2)] obtain s' D' where
      l: "kahn_loop g s1 = Inr s'" and e: "q s' = []" and i: "kahn_inv g s' D'" and sub: "insert cur D \<subseteq> D'"
      by blast
    have "kahn_loop g s = kahn_loop g s1"
      using Cons nr cl r by (subst kahn_loop.simps) simp
    with l have l': "kahn_loop g s = Inr s'" by simp
    from sub have sub': "D \<subseteq> D'" by blast
    from l' e i sub' show ?thesis
      by - (rule exI [of _ s'], rule exI [of _ D'], simp)
  qed
qed

lemma seed_upto:
  "k \<le> length deg \<Longrightarrow>
   foldl (\<lambda>s i. if deg ! i = 0
                   then s\<lparr>q := q s @ [i], lut_levels := (lut_levels s)[i := Some 0]\<rparr>
                   else s)
           \<lparr>q = [], lut_in_degree = deg, lut_levels = replicate (length deg) None, processed_count = 0\<rparr>
           [0..<k]
    = \<lparr>q = filter (\<lambda>i. deg ! i = 0) [0..<k], lut_in_degree = deg,
       lut_levels = map (\<lambda>i. if i < k \<and> deg ! i = 0 then Some 0 else None) [0..<length deg],
       processed_count = 0\<rparr>"
proof (induction k)
  case 0
  show ?case by (simp add: map_replicate_const)
next
  case (Suc k)
  then have k: "k < length deg" by simp
  have upd: "(map (\<lambda>i. if i < k \<and> deg ! i = 0 then Some 0 else None) [0..<length deg])[k := Some (0::int)]
      = map (\<lambda>i. if i < Suc k \<and> deg ! i = 0 then Some 0 else None) [0..<length deg]"
    if "deg ! k = 0"
    using that k by (intro nth_equalityI) (auto simp: nth_list_update less_Suc_eq)
  have same: "map (\<lambda>i. if i < k \<and> deg ! i = 0 then Some (0::int) else None) [0..<length deg]
      = map (\<lambda>i. if i < Suc k \<and> deg ! i = 0 then Some 0 else None) [0..<length deg]"
    if "deg ! k \<noteq> 0"
    using that by (intro nth_equalityI) (auto simp: less_Suc_eq)
  from Suc k show ?case
    by (cases "deg ! k = 0") (simp_all add: upd same)
qed

lemma seed_state_eq:
  "seed_state deg = \<lparr>q = filter (\<lambda>i. deg ! i = 0) [0..<length deg], lut_in_degree = deg,
       lut_levels = map (\<lambda>i. if deg ! i = 0 then Some 0 else None) [0..<length deg],
       processed_count = 0\<rparr>"
  unfolding seed_state_def using seed_upto [OF le_refl, of deg]
  by (simp cong: map_cong)

lemma seed_inv:
  assumes "graph_ok g deg"
  shows "kahn_inv g (seed_state deg) {}"
proof -
  let ?n = "length g"
  from assms have len: "length deg = ?n"
    and dg: "\<forall>v<?n. deg ! v = int (card (preds g v))"
    by (simp_all add: graph_ok_def)
  have zero: "\<And>v. v < ?n \<Longrightarrow> deg ! v = 0 \<longleftrightarrow> preds g v = {}"
    using dg finite_preds by simp
  have sh: "inv_shape g (seed_state deg) {}"
    using len by (auto simp: inv_shape_def seed_state_eq)
  have de: "inv_deg g (seed_state deg) {}"
    using len dg zero by (auto simp: inv_deg_def seed_state_eq)
  have le: "inv_lev g (lut_levels (seed_state deg)) {}"
    using len zero by (auto simp: inv_lev_def seed_state_eq)
  from sh de le show ?thesis by (simp add: kahn_inv_def)
qed

text \<open>The run of \<open>NumberLutsByLevel\<close>, with the set of LUTs that left the queue.\<close>

lemma NumberLutsByLevel_run:
  "\<exists>g deg s D. build_graph luts = (g, deg) \<and> length g = length luts
     \<and> (\<forall>v<length luts. preds g v = drivers_of luts v)
     \<and> (\<forall>u<length g. set (g ! u) \<subseteq> {..<length g})
     \<and> q s = [] \<and> kahn_inv g s D
     \<and> NumberLutsByLevel luts = Inr \<lparr>levels = lut_levels s, processed = card D,
                                     loop_warning = (card D \<noteq> length luts)\<rparr>"
proof -
  obtain g deg where b: "build_graph luts = (g, deg)" by (cases "build_graph luts") blast
  from build_graph_ok [OF b] have len: "length g = length luts" and ok: "graph_ok g deg"
    and pr: "\<forall>v<length luts. preds g v = drivers_of luts v" by simp_all
  from ok have ok': "\<forall>u<length g. distinct (g ! u) \<and> set (g ! u) \<subseteq> {..<length g}"
    by (simp add: graph_ok_def)
  from kahn_loop_inv [OF ok' seed_inv [OF ok]] obtain s D where
    l: "kahn_loop g (seed_state deg) = Inr s" and e: "q s = []" and i: "kahn_inv g s D"
    by blast
  from i have "processed_count s = card D" by (simp add: kahn_inv_def inv_shape_def)
  with b l have "NumberLutsByLevel luts = Inr \<lparr>levels = lut_levels s, processed = card D,
                                     loop_warning = (card D \<noteq> length luts)\<rparr>"
    by (simp add: NumberLutsByLevel_def)
  with b len pr ok' e i show ?thesis by blast
qed

lemma lut_edge_depends:
  assumes "distinct (map output_sig luts)"
  shows "lut_edge luts u v \<longleftrightarrow> depends luts u v"
proof
  assume "lut_edge luts u v"
  then obtain sig where v: "v < length luts" and s: "sig \<in> snd ` set (ordered_inputs (luts ! v))"
    and d: "output_sig_to_lut luts sig = Some u"
    by (auto simp: lut_edge_def drivers_of_def)
  from output_sig_to_lut_Some [OF d] v s show "depends luts u v"
    by (auto simp: depends_def)
next
  assume d: "depends luts u v"
  then have "output_sig_to_lut luts (output_sig (luts ! u)) = Some u"
    using output_sig_to_lut_distinct [OF assms] by (simp add: depends_def)
  moreover from d have "output_sig (luts ! u) \<in> snd ` set (ordered_inputs (luts ! v))"
    and "v < length luts" by (simp_all add: depends_def)
  ultimately show "lut_edge luts u v"
    unfolding lut_edge_def drivers_of_def by blast
qed

lemma lut_edge_bound: "lut_edge luts u v \<Longrightarrow> u < length luts \<and> v < length luts"
  using drivers_of_bound [of luts v] by (auto simp: lut_edge_def)

lemma finite_lut_edges: "finite {(u, v). lut_edge luts u v}"
proof (rule finite_subset)
  show "{(u, v). lut_edge luts u v} \<subseteq> {..<length luts} \<times> {..<length luts}"
    using lut_edge_bound by auto
qed simp

text \<open>What holds when the queue has run empty, in terms of the LUT list.\<close>

lemma NumberLutsByLevel_visited:
  "\<exists>lv D. NumberLutsByLevel luts = Inr lv \<and> processed lv = card D
     \<and> loop_warning lv = (processed lv \<noteq> length luts)
     \<and> visited_ok luts (levels lv) D"
proof -
  let ?n = "length luts"
  from NumberLutsByLevel_run [of luts] obtain g deg s D where
    len: "length g = ?n" and pr: "\<forall>v<?n. preds g v = drivers_of luts v"
    and e: "q s = []" and inv: "kahn_inv g s D"
    and res: "NumberLutsByLevel luts = Inr \<lparr>levels = lut_levels s, processed = card D,
                                     loop_warning = (card D \<noteq> ?n)\<rparr>"
    by blast
  let ?lev = "lut_levels s"
  from inv e len have Db: "D \<subseteq> {..<?n}" and ll: "length ?lev = ?n"
    by (simp_all add: kahn_inv_def inv_shape_def)
  from inv e len have enq: "\<forall>v<?n. v \<in> D \<longleftrightarrow> preds g v \<subseteq> D"
    by (simp add: kahn_inv_def inv_deg_def)
  from inv len have LA: "\<forall>v<?n. preds g v = {} \<longrightarrow> ?lev ! v = Some 0"
    and LB: "\<forall>v<?n. \<forall>u \<in> preds g v \<inter> D. \<exists>lu l. ?lev ! u = Some lu \<and> ?lev ! v = Some l \<and> lu + 1 \<le> l"
    and LC: "\<forall>v<?n. \<forall>l. ?lev ! v = Some l \<longrightarrow>
            (l = 0 \<and> preds g v = {}) \<or> (\<exists>u \<in> preds g v \<inter> D. ?lev ! u = Some (l - 1))"
    and LD: "\<forall>v<?n. \<forall>l. ?lev ! v = Some l \<longrightarrow> 0 \<le> l"
    by (simp_all add: kahn_inv_def inv_lev_def)
  have edge: "\<And>u v. lut_edge luts u v \<longleftrightarrow> v < ?n \<and> u \<in> preds g v"
    using pr by (auto simp: lut_edge_def)
  have c1: "\<forall>v<?n. v \<in> D \<longleftrightarrow> (\<forall>u. lut_edge luts u v \<longrightarrow> u \<in> D)"
    using enq edge by auto
  have c2: "\<forall>v<?n. (\<forall>u. \<not> lut_edge luts u v) \<longrightarrow> ?lev ! v = Some 0"
  proof (intro allI impI)
    fix v assume v: "v < ?n" and "\<forall>u. \<not> lut_edge luts u v"
    then have "preds g v = {}" using edge by auto
    with LA v show "?lev ! v = Some 0" by simp
  qed
  have c3: "\<forall>u v. lut_edge luts u v \<and> u \<in> D \<longrightarrow> (\<exists>lu l. ?lev ! u = Some lu \<and> ?lev ! v = Some l \<and> lu < l)"
  proof (intro allI impI)
    fix u v assume "lut_edge luts u v \<and> u \<in> D"
    then have v: "v < ?n" and "u \<in> preds g v \<inter> D" using edge by auto
    with LB obtain lu l where "?lev ! u = Some lu" "?lev ! v = Some l" "lu + 1 \<le> l" by blast
    then show "\<exists>lu l. ?lev ! u = Some lu \<and> ?lev ! v = Some l \<and> lu < l" by auto
  qed
  have c4: "\<forall>v<?n. \<forall>l. ?lev ! v = Some l \<longrightarrow>
            (l = 0 \<and> (\<forall>u. \<not> lut_edge luts u v))
            \<or> (\<exists>u. lut_edge luts u v \<and> u \<in> D \<and> ?lev ! u = Some (l - 1))"
  proof (intro allI impI)
    fix v l assume v: "v < ?n" and l: "?lev ! v = Some l"
    with LC consider "l = 0 \<and> preds g v = {}" | u where "u \<in> preds g v \<inter> D" "?lev ! u = Some (l - 1)"
      by blast
    then show "(l = 0 \<and> (\<forall>u. \<not> lut_edge luts u v))
            \<or> (\<exists>u. lut_edge luts u v \<and> u \<in> D \<and> ?lev ! u = Some (l - 1))"
    proof cases
      case 1
      then show ?thesis using edge by auto
    next
      case 2
      then have "lut_edge luts u v \<and> u \<in> D \<and> ?lev ! u = Some (l - 1)" using edge v by auto
      then show ?thesis by blast
    qed
  qed
  have "visited_ok luts ?lev D"
    unfolding visited_ok_def using Db ll c1 c2 c3 c4 LD by blast
  with res show ?thesis
    by - (rule exI [of _ "\<lparr>levels = lut_levels s, processed = card D, loop_warning = (card D \<noteq> ?n)\<rparr>"],
          rule exI [of _ D], simp)
qed

lemma visited_all_acyclic:
  assumes vo: "visited_ok luts lev D" and ac: "acyclic {(u, v). lut_edge luts u v}"
  shows "D = {..<length luts}"
proof (rule ccontr)
  assume ne: "D \<noteq> {..<length luts}"
  from vo have Db: "D \<subseteq> {..<length luts}"
    and enq: "\<forall>v<length luts. v \<in> D \<longleftrightarrow> (\<forall>u. lut_edge luts u v \<longrightarrow> u \<in> D)"
    by (simp_all add: visited_ok_def)
  let ?Q = "{v. v < length luts \<and> v \<notin> D}"
  from ne Db obtain x where x: "x \<in> ?Q" by auto
  have wf: "wf {(u, v). lut_edge luts u v}"
    using finite_lut_edges ac by (rule finite_acyclic_wf)
  from wf x obtain z where z: "z \<in> ?Q" and m: "\<And>y. (y, z) \<in> {(u, v). lut_edge luts u v} \<Longrightarrow> y \<notin> ?Q"
    by (rule wfE_min) blast
  have "\<forall>u. lut_edge luts u z \<longrightarrow> u \<in> D"
  proof (intro allI impI)
    fix u assume e: "lut_edge luts u z"
    then have "u \<notin> ?Q" using m by simp
    moreover from e have "u < length luts" using lut_edge_bound by blast
    ultimately show "u \<in> D" by simp
  qed
  with enq z show False by blast
qed

lemma visited_all_no_cycle:
  assumes vo: "visited_ok luts lev D" and all: "D = {..<length luts}"
  shows "acyclic {(u, v). lut_edge luts u v}"
proof -
  from vo have inc: "\<forall>u v. lut_edge luts u v \<and> u \<in> D \<longrightarrow> (\<exists>lu l. lev ! u = Some lu \<and> lev ! v = Some l \<and> lu < l)"
    by (simp add: visited_ok_def)
  have "\<And>a b. (a, b) \<in> {(u, v). lut_edge luts u v} \<Longrightarrow> - the (lev ! b) < - the (lev ! a)"
  proof -
    fix a b assume "(a, b) \<in> {(u, v). lut_edge luts u v}"
    then have e: "lut_edge luts a b" by simp
    then have "a \<in> D" using all lut_edge_bound by auto
    with inc e obtain lu l where "lev ! a = Some lu" "lev ! b = Some l" "lu < l" by blast
    then show "- the (lev ! b) < - the (lev ! a)" by simp
  qed
  then show ?thesis by (rule acyclicI_order)
qed

lemma dep_chain_hd: "dep_chain luts xs \<Longrightarrow> hd xs < length luts"
  by (induction luts xs rule: dep_chain.induct) (auto simp: depends_def)

lemma dep_chain_snoc:
  "dep_chain luts xs \<Longrightarrow> depends luts (last xs) v \<Longrightarrow> dep_chain luts (xs @ [v])"
  by (induction luts xs rule: dep_chain.induct) (auto simp: depends_def)

lemma chain_upper:
  "dep_chain luts xs \<Longrightarrow>
   \<forall>u v. depends luts u v \<longrightarrow> (\<exists>lu l. lev ! u = Some lu \<and> lev ! v = Some l \<and> lu < l) \<Longrightarrow>
   the (lev ! hd xs) + int (length xs) - 1 \<le> the (lev ! last xs)"
proof (induction luts xs rule: dep_chain.induct)
  case (1 luts)
  then show ?case by simp
next
  case (2 luts v)
  then show ?case by simp
next
  case (3 luts u v vs)
  from "3.prems"(1) have d: "depends luts u v" and c: "dep_chain luts (v # vs)" by simp_all
  from "3.prems"(2) d obtain lu l where "lev ! u = Some lu" "lev ! v = Some l" "lu < l" by blast
  moreover from "3.IH" [OF c "3.prems"(2)]
  have "the (lev ! v) + int (length (v # vs)) - 1 \<le> the (lev ! last (v # vs))" by simp
  ultimately show ?case by simp
qed

lemma chain_exists:
  assumes wit: "\<forall>v<length luts. \<forall>l. lev ! v = Some l \<longrightarrow>
            (l = 0 \<and> (\<forall>u. \<not> depends luts u v))
            \<or> (\<exists>u. depends luts u v \<and> lev ! u = Some (l - 1))"
  shows "v < length luts \<Longrightarrow> lev ! v = Some (int k) \<Longrightarrow>
         \<exists>xs. dep_chain luts xs \<and> last xs = v \<and> length xs = Suc k"
proof (induction k arbitrary: v)
  case 0
  then have "dep_chain luts [v] \<and> last [v] = v \<and> length [v] = Suc 0" by simp
  then show ?case by blast
next
  case (Suc k)
  from wit Suc.prems obtain u where d: "depends luts u v" and lu: "lev ! u = Some (int (Suc k) - 1)"
    by fastforce
  from d have u: "u < length luts" by (simp add: depends_def)
  from lu have "lev ! u = Some (int k)" by simp
  from Suc.IH [OF u this] obtain xs where c: "dep_chain luts xs" and l: "last xs = u"
    and n: "length xs = Suc k" by blast
  from c d l have "dep_chain luts (xs @ [v])" by (simp add: dep_chain_snoc)
  moreover have "last (xs @ [v]) = v" "length (xs @ [v]) = Suc (Suc k)" using n by simp_all
  ultimately show ?case by blast
qed

text \<open>
  C6. On a LUT list with pairwise different outputs whose dependency graph has no cycle,
  \<open>NumberLutsByLevel\<close> returns without a warning, having processed every LUT, and: every
  LUT has a level; some chain of dependencies ending at the LUT has exactly that length and
  no chain ending at it is longer; and for every dependency edge \<open>u \<rightarrow> v\<close> the level of \<open>u\<close>
  is below the level of \<open>v\<close>.
\<close>

theorem levels_longest_chain:
  assumes "distinct (map output_sig luts)"
    and "acyclic {(u, v). depends luts u v}"
  shows "\<exists>lv. NumberLutsByLevel luts = Inr lv
     \<and> \<not> loop_warning lv \<and> processed lv = length luts \<and> length (levels lv) = length luts
     \<and> (\<forall>v<length luts. \<exists>l. levels lv ! v = Some l
           \<and> (\<exists>xs. dep_chain luts xs \<and> last xs = v \<and> int (length xs) - 1 = l)
           \<and> (\<forall>xs. dep_chain luts xs \<and> last xs = v \<longrightarrow> int (length xs) - 1 \<le> l))
     \<and> (\<forall>u v. depends luts u v \<longrightarrow>
           (\<exists>lu l. levels lv ! u = Some lu \<and> levels lv ! v = Some l \<and> lu < l))"
proof -
  let ?n = "length luts"
  have eq: "\<And>u v. lut_edge luts u v = depends luts u v"
    using lut_edge_depends [OF assms(1)] by simp
  from NumberLutsByLevel_visited [of luts] obtain lv D where
    res: "NumberLutsByLevel luts = Inr lv" and cnt: "processed lv = card D"
    and warn: "loop_warning lv = (processed lv \<noteq> ?n)"
    and vo: "visited_ok luts (levels lv) D"
    by blast
  let ?lev = "levels lv"
  have ac: "acyclic {(u, v). lut_edge luts u v}" using assms(2) by (simp add: eq)
  from visited_all_acyclic [OF vo ac] have D: "D = {..<?n}" .
  from vo have ll: "length ?lev = ?n"
    and src: "\<forall>v<?n. (\<forall>u. \<not> depends luts u v) \<longrightarrow> ?lev ! v = Some 0"
    and inc0: "\<forall>u v. depends luts u v \<and> u \<in> D \<longrightarrow> (\<exists>lu l. ?lev ! u = Some lu \<and> ?lev ! v = Some l \<and> lu < l)"
    and wit0: "\<forall>v<?n. \<forall>l. ?lev ! v = Some l \<longrightarrow>
            (l = 0 \<and> (\<forall>u. \<not> depends luts u v))
            \<or> (\<exists>u. depends luts u v \<and> u \<in> D \<and> ?lev ! u = Some (l - 1))"
    and pos: "\<forall>v<?n. \<forall>l. ?lev ! v = Some l \<longrightarrow> 0 \<le> l"
    unfolding visited_ok_def eq by blast+
  have inc: "\<forall>u v. depends luts u v \<longrightarrow> (\<exists>lu l. ?lev ! u = Some lu \<and> ?lev ! v = Some l \<and> lu < l)"
  proof (intro allI impI)
    fix u v assume d: "depends luts u v"
    then have "u \<in> D" using D by (simp add: depends_def)
    with inc0 d show "\<exists>lu l. ?lev ! u = Some lu \<and> ?lev ! v = Some l \<and> lu < l" by blast
  qed
  have wit: "\<forall>v<?n. \<forall>l. ?lev ! v = Some l \<longrightarrow>
            (l = 0 \<and> (\<forall>u. \<not> depends luts u v))
            \<or> (\<exists>u. depends luts u v \<and> ?lev ! u = Some (l - 1))"
    using wit0 by blast
  have some: "\<And>v. v < ?n \<Longrightarrow> \<exists>l. ?lev ! v = Some l"
  proof -
    fix v assume v: "v < ?n"
    show "\<exists>l. ?lev ! v = Some l"
    proof (cases "\<forall>u. \<not> depends luts u v")
      case True
      with src v show ?thesis by simp
    next
      case False
      with inc show ?thesis by blast
    qed
  qed
  have per: "\<forall>v<?n. \<exists>l. ?lev ! v = Some l
           \<and> (\<exists>xs. dep_chain luts xs \<and> last xs = v \<and> int (length xs) - 1 = l)
           \<and> (\<forall>xs. dep_chain luts xs \<and> last xs = v \<longrightarrow> int (length xs) - 1 \<le> l)"
  proof (intro allI impI)
    fix v assume v: "v < ?n"
    from some [OF v] obtain l where l: "?lev ! v = Some l" by blast
    with pos v have "0 \<le> l" by blast
    then have "?lev ! v = Some (int (nat l))" using l by simp
    from chain_exists [OF wit v this] obtain xs where
      "dep_chain luts xs" "last xs = v" "length xs = Suc (nat l)" by blast
    with \<open>0 \<le> l\<close> have ex: "\<exists>xs. dep_chain luts xs \<and> last xs = v \<and> int (length xs) - 1 = l"
      by (intro exI [of _ xs]) simp
    have up: "\<forall>xs. dep_chain luts xs \<and> last xs = v \<longrightarrow> int (length xs) - 1 \<le> l"
    proof (intro allI impI)
      fix xs assume c: "dep_chain luts xs \<and> last xs = v"
      then have "hd xs < ?n" using dep_chain_hd by blast
      from some [OF this] obtain l0 where l0: "?lev ! hd xs = Some l0" by blast
      with pos \<open>hd xs < ?n\<close> have "0 \<le> l0" by blast
      moreover from chain_upper [OF _ inc, of xs] c l l0
      have "l0 + int (length xs) - 1 \<le> l" by simp
      ultimately show "int (length xs) - 1 \<le> l" by simp
    qed
    from l ex up show "\<exists>l. ?lev ! v = Some l
           \<and> (\<exists>xs. dep_chain luts xs \<and> last xs = v \<and> int (length xs) - 1 = l)
           \<and> (\<forall>xs. dep_chain luts xs \<and> last xs = v \<longrightarrow> int (length xs) - 1 \<le> l)"
      by blast
  qed
  from cnt D have p: "processed lv = ?n" by simp
  with warn have w: "\<not> loop_warning lv" by simp
  from res w p ll per inc show ?thesis by blast
qed

lemma level_push_back_sorted:
  assumes "sorted_wrt (<) (map fst m)"
  shows "sorted_wrt (<) (map fst (level_push_back m level i))
     \<and> fst ` set (level_push_back m level i) = insert level (fst ` set m)"
  using assms
proof (induction m)
  case Nil
  then show ?case by simp
next
  case (Cons p m)
  obtain l vs where p: "p = (l, vs)" by (cases p)
  from Cons.prems have s: "sorted_wrt (<) (map fst m)" and h: "\<forall>k \<in> fst ` set m. l < k"
    by (auto simp: p)
  from Cons.IH [OF s] have ih1: "sorted_wrt (<) (map fst (level_push_back m level i))"
    and ih2: "fst ` set (level_push_back m level i) = insert level (fst ` set m)" by simp_all
  show ?case
  proof (cases "level < l")
    case True
    with Cons.prems h show ?thesis by (auto simp: p)
  next
    case False
    show ?thesis
    proof (cases "level = l")
      case True
      with Cons.prems show ?thesis by (auto simp: p)
    next
      case ne: False
      with False have "l < level" by simp
      with ih1 ih2 h False ne show ?thesis by (auto simp: p)
    qed
  qed
qed

lemma level_push_back_map_of:
  assumes "sorted_wrt (<) (map fst m)"
  shows "map_of (level_push_back m level i) l
     = (if l = level then Some ((case map_of m level of None \<Rightarrow> [] | Some vs \<Rightarrow> vs) @ [i])
        else map_of m l)"
  using assms
proof (induction m)
  case Nil
  then show ?case by simp
next
  case (Cons p m)
  obtain k vs where p: "p = (k, vs)" by (cases p)
  from Cons.prems have s: "sorted_wrt (<) (map fst m)" and h: "\<forall>k' \<in> fst ` set m. k < k'"
    by (auto simp: p)
  note ih = Cons.IH [OF s]
  show ?case
  proof (cases "level < k")
    case True
    then have "level \<notin> fst ` set m" using h by auto
    then have "map_of m level = None" by (simp add: map_of_eq_None_iff)
    with True show ?thesis by (auto simp: p)
  next
    case False
    then show ?thesis using ih by (auto simp: p)
  qed
qed

lemma level_push_back_in_level:
  assumes "sorted_wrt (<) (map fst m)"
  shows "in_level (level_push_back m level i) l v \<longleftrightarrow> in_level m l v \<or> (l = level \<and> v = i)"
  unfolding in_level_def level_push_back_map_of [OF assms]
  by (auto split: option.splits)

lemma partition_upto:
  "k \<le> n \<Longrightarrow>
   sorted_wrt (<) (map fst (foldl (\<lambda>m i. case lvs ! i of None \<Rightarrow> m | Some level \<Rightarrow> level_push_back m level i) [] [0..<k]))
   \<and> (\<forall>l v. in_level (foldl (\<lambda>m i. case lvs ! i of None \<Rightarrow> m | Some level \<Rightarrow> level_push_back m level i) [] [0..<k]) l v
         \<longleftrightarrow> v < k \<and> lvs ! v = Some l)"
proof (induction k)
  case 0
  show ?case by (simp add: in_level_def)
next
  case (Suc k)
  let ?m = "foldl (\<lambda>m i. case lvs ! i of None \<Rightarrow> m | Some level \<Rightarrow> level_push_back m level i) [] [0..<k]"
  from Suc have s: "sorted_wrt (<) (map fst ?m)"
    and i: "\<forall>l v. in_level ?m l v \<longleftrightarrow> v < k \<and> lvs ! v = Some l" by simp_all
  show ?case
  proof (cases "lvs ! k")
    case None
    with s i show ?thesis by (auto simp: less_Suc_eq)
  next
    case (Some level)
    with s i level_push_back_sorted [OF s, of level k] level_push_back_in_level [OF s, of level k]
    show ?thesis by (auto simp: less_Suc_eq)
  qed
qed

lemma partition_levels_in_level:
  "in_level (partition_levels lvs n) l v \<longleftrightarrow> v < n \<and> lvs ! v = Some l"
  unfolding partition_levels_def using partition_upto [OF le_refl, of lvs n] by blast

theorem levels_longest_chain_witness:
  "NumberLutsByLevel ex_chain = Inr \<lparr>levels = [Some 0, Some 1, Some 2], processed = 3, loop_warning = False\<rparr>
   \<and> depends ex_chain 0 1 \<and> depends ex_chain 0 2 \<and> depends ex_chain 1 2
   \<and> (\<exists>xs. dep_chain ex_chain xs \<and> last xs = 2 \<and> int (length xs) - 1 = 2)
   \<and> int (length [0, 2 :: nat]) - 1 \<le> 2"
proof -
  have run: "NumberLutsByLevel ex_chain
      = Inr \<lparr>levels = [Some 0, Some 1, Some 2], processed = 3, loop_warning = False\<rparr>"
    by code_simp
  have d: "distinct (map output_sig ex_chain)" by code_simp
  have e: "depends ex_chain 0 1" "depends ex_chain 0 2" "depends ex_chain 1 2" by code_simp+
  have n: "length ex_chain = 3" by code_simp
  have up: "\<forall>u \<in> set [0..<3]. \<forall>v \<in> set [0..<3]. depends ex_chain u v \<longrightarrow> u < v" by code_simp
  have "\<And>a b. (a, b) \<in> {(u, v). depends ex_chain u v} \<Longrightarrow> - int b < - int a"
  proof -
    fix a b assume "(a, b) \<in> {(u, v). depends ex_chain u v}"
    then have dep: "depends ex_chain a b" by simp
    then have "a \<in> set [0..<3]" "b \<in> set [0..<3]" using n by (simp_all add: depends_def)
    with up dep show "- int b < - int a" by fastforce
  qed
  then have ac: "acyclic {(u, v). depends ex_chain u v}" by (rule acyclicI_order)
  from levels_longest_chain [OF d ac] obtain lv where
    r: "NumberLutsByLevel ex_chain = Inr lv"
    and per: "\<forall>v<length ex_chain. \<exists>l. levels lv ! v = Some l
           \<and> (\<exists>xs. dep_chain ex_chain xs \<and> last xs = v \<and> int (length xs) - 1 = l)
           \<and> (\<forall>xs. dep_chain ex_chain xs \<and> last xs = v \<longrightarrow> int (length xs) - 1 \<le> l)"
    by blast
  from r run have "lv = \<lparr>levels = [Some 0, Some 1, Some 2], processed = 3, loop_warning = False\<rparr>"
    by simp
  then have lv: "levels lv = [Some 0, Some 1, Some 2]" by simp
  have "(2::nat) < length ex_chain" using n by simp
  with per have "\<exists>l. levels lv ! 2 = Some l
           \<and> (\<exists>xs. dep_chain ex_chain xs \<and> last xs = 2 \<and> int (length xs) - 1 = l)
           \<and> (\<forall>xs. dep_chain ex_chain xs \<and> last xs = 2 \<longrightarrow> int (length xs) - 1 \<le> l)"
    by blast
  then have two: "\<exists>l. Some (2::int) = Some l
           \<and> (\<exists>xs. dep_chain ex_chain xs \<and> last xs = 2 \<and> int (length xs) - 1 = l)
           \<and> (\<forall>xs. dep_chain ex_chain xs \<and> last xs = 2 \<longrightarrow> int (length xs) - 1 \<le> l)"
    unfolding lv by simp
  then have ex: "\<exists>xs. dep_chain ex_chain xs \<and> last xs = 2 \<and> int (length xs) - 1 = 2"
    and all: "\<forall>xs. dep_chain ex_chain xs \<and> last xs = 2 \<longrightarrow> int (length xs) - 1 \<le> 2"
    by auto
  have "dep_chain ex_chain [0, 2]" using e n by simp
  with all have "int (length [0, 2 :: nat]) - 1 \<le> 2" by fastforce
  with run e ex show ?thesis by simp
qed

text \<open>
  What \<open>NumberLutsByLevel\<close> does on every LUT list. It returns: the loop ends and no lookup
  fails. With \<open>D\<close> the set of LUTs it processed: the warning is given exactly when the
  processed count differs from the number of LUTs, which is exactly when the graph the
  function builds has a cycle (with pairwise different outputs, that is the dependency
  graph). A LUT is processed exactly when all the LUTs driving it are. No level is given
  by default: an unprocessed LUT either has no level and no processed driver, or it has a
  level of at least 1, one above the level of a processed driver. The partition holds
  exactly the LUTs that have a level, each at its level.
\<close>

lemma cycle_is_warned:
  "\<exists>lv D. NumberLutsByLevel luts = Inr lv
     \<and> D \<subseteq> {..<length luts} \<and> processed lv = card D
     \<and> loop_warning lv = (processed lv \<noteq> length luts)
     \<and> (loop_warning lv \<longleftrightarrow> \<not> acyclic {(u, v). lut_edge luts u v})
     \<and> (distinct (map output_sig luts) \<longrightarrow> (\<forall>u v. lut_edge luts u v \<longleftrightarrow> depends luts u v))
     \<and> (\<forall>v<length luts. v \<in> D \<longleftrightarrow> (\<forall>u. lut_edge luts u v \<longrightarrow> u \<in> D))
     \<and> (\<forall>v<length luts. v \<notin> D \<longrightarrow>
           (levels lv ! v = None \<and> (\<forall>u. lut_edge luts u v \<longrightarrow> u \<notin> D))
           \<or> (\<exists>l u. levels lv ! v = Some l \<and> 1 \<le> l \<and> lut_edge luts u v \<and> u \<in> D
                     \<and> levels lv ! u = Some (l - 1)))
     \<and> (\<forall>v l. in_level (partition_levels (levels lv) (length luts)) l v
           \<longleftrightarrow> v < length luts \<and> levels lv ! v = Some l)"
proof -
  let ?n = "length luts"
  from NumberLutsByLevel_visited [of luts] obtain lv D where
    res: "NumberLutsByLevel luts = Inr lv" and cnt: "processed lv = card D"
    and warn: "loop_warning lv = (processed lv \<noteq> ?n)"
    and vo: "visited_ok luts (levels lv) D"
    by blast
  let ?lev = "levels lv"
  from vo have Db: "D \<subseteq> {..<?n}"
    and enq: "\<forall>v<?n. v \<in> D \<longleftrightarrow> (\<forall>u. lut_edge luts u v \<longrightarrow> u \<in> D)"
    and inc: "\<forall>u v. lut_edge luts u v \<and> u \<in> D \<longrightarrow> (\<exists>lu l. ?lev ! u = Some lu \<and> ?lev ! v = Some l \<and> lu < l)"
    and wit: "\<forall>v<?n. \<forall>l. ?lev ! v = Some l \<longrightarrow>
            (l = 0 \<and> (\<forall>u. \<not> lut_edge luts u v))
            \<or> (\<exists>u. lut_edge luts u v \<and> u \<in> D \<and> ?lev ! u = Some (l - 1))"
    and pos: "\<forall>v<?n. \<forall>l. ?lev ! v = Some l \<longrightarrow> 0 \<le> l"
    unfolding visited_ok_def by simp_all
  have cyc: "loop_warning lv \<longleftrightarrow> \<not> acyclic {(u, v). lut_edge luts u v}"
  proof
    assume w: "loop_warning lv"
    show "\<not> acyclic {(u, v). lut_edge luts u v}"
    proof
      assume "acyclic {(u, v). lut_edge luts u v}"
      from visited_all_acyclic [OF vo this] cnt warn w show False by simp
    qed
  next
    assume na: "\<not> acyclic {(u, v). lut_edge luts u v}"
    show "loop_warning lv"
    proof (rule ccontr)
      assume "\<not> loop_warning lv"
      with warn cnt have "card D = card {..<?n}" by simp
      with Db have "D = {..<?n}" by (simp add: card_subset_eq)
      from visited_all_no_cycle [OF vo this] na show False by simp
    qed
  qed
  have dis: "distinct (map output_sig luts) \<longrightarrow> (\<forall>u v. lut_edge luts u v \<longleftrightarrow> depends luts u v)"
    using lut_edge_depends by blast
  have resid: "\<forall>v<?n. v \<notin> D \<longrightarrow>
           (?lev ! v = None \<and> (\<forall>u. lut_edge luts u v \<longrightarrow> u \<notin> D))
           \<or> (\<exists>l u. ?lev ! v = Some l \<and> 1 \<le> l \<and> lut_edge luts u v \<and> u \<in> D
                     \<and> ?lev ! u = Some (l - 1))"
  proof (intro allI impI)
    fix v assume v: "v < ?n" and nd: "v \<notin> D"
    show "(?lev ! v = None \<and> (\<forall>u. lut_edge luts u v \<longrightarrow> u \<notin> D))
           \<or> (\<exists>l u. ?lev ! v = Some l \<and> 1 \<le> l \<and> lut_edge luts u v \<and> u \<in> D
                     \<and> ?lev ! u = Some (l - 1))"
    proof (cases "?lev ! v")
      case None
      with inc show ?thesis by fastforce
    next
      case (Some l)
      from enq v nd obtain u0 where "lut_edge luts u0 v" by blast
      with wit v Some obtain u where u: "lut_edge luts u v" "u \<in> D" "?lev ! u = Some (l - 1)"
        by blast
      from u(1) have "u < ?n" using lut_edge_bound by blast
      with pos u(3) have "0 \<le> l - 1" by blast
      with Some u show ?thesis by auto
    qed
  qed
  have part: "\<forall>v l. in_level (partition_levels ?lev ?n) l v \<longleftrightarrow> v < ?n \<and> ?lev ! v = Some l"
    by (simp add: partition_levels_in_level)
  from res Db cnt warn cyc dis enq resid part show ?thesis
    by - (rule exI [of _ lv], rule exI [of _ D], blast)
qed

text \<open>On the three LUTs of \<open>ex_loop\<close>: the warning, the cycle, and \<open>B\<close> at level 1.\<close>

lemma cycle_is_warned_ex_loop:
  "NumberLutsByLevel ex_loop = Inr \<lparr>levels = [Some 0, Some 1, None], processed = 1, loop_warning = True\<rparr>
   \<and> \<not> acyclic {(u, v). lut_edge ex_loop u v}
   \<and> in_level (partition_levels [Some 0, Some 1, None] (length ex_loop)) 1 1"
proof -
  have run: "NumberLutsByLevel ex_loop
      = Inr \<lparr>levels = [Some 0, Some 1, None], processed = 1, loop_warning = True\<rparr>"
    by code_simp
  from cycle_is_warned [of ex_loop] obtain lv D where
    r: "NumberLutsByLevel ex_loop = Inr lv"
    and c: "loop_warning lv \<longleftrightarrow> \<not> acyclic {(u, v). lut_edge ex_loop u v}"
    and p: "\<forall>v l. in_level (partition_levels (levels lv) (length ex_loop)) l v
           \<longleftrightarrow> v < length ex_loop \<and> levels lv ! v = Some l"
    by blast
  from r run have lv: "lv = \<lparr>levels = [Some 0, Some 1, None], processed = 1, loop_warning = True\<rparr>"
    by simp
  have n: "length ex_loop = 3" by code_simp
  from c lv have a: "\<not> acyclic {(u, v). lut_edge ex_loop u v}" by simp
  from p lv n have b: "in_level (partition_levels [Some 0, Some 1, None] (length ex_loop)) 1 1"
    by simp
  from run a b show ?thesis by simp
qed

text \<open>
  In general: a LUT \<open>v\<close> on a cycle that is driven by a LUT \<open>u\<close> without drivers among the
  LUTs is not processed, and yet has a level of at least 1 and stands in the partition at
  that level.
\<close>

lemma cycle_node_keeps_level:
  assumes e: "lut_edge luts u v" and src: "\<forall>w. \<not> lut_edge luts w u"
    and cyc: "(v, v) \<in> {(a, b). lut_edge luts a b}\<^sup>+"
  shows "\<exists>lv l. NumberLutsByLevel luts = Inr lv \<and> loop_warning lv
      \<and> levels lv ! v = Some l \<and> 1 \<le> l
      \<and> in_level (partition_levels (levels lv) (length luts)) l v"
proof -
  let ?n = "length luts"
  let ?E = "{(a, b). lut_edge luts a b}"
  from NumberLutsByLevel_visited [of luts] obtain lv D where
    res: "NumberLutsByLevel luts = Inr lv" and cnt: "processed lv = card D"
    and warn: "loop_warning lv = (processed lv \<noteq> ?n)"
    and vo: "visited_ok luts (levels lv) D"
    by blast
  let ?lev = "levels lv"
  from vo have Db: "D \<subseteq> {..<?n}"
    and enq: "\<forall>v<?n. v \<in> D \<longleftrightarrow> (\<forall>u. lut_edge luts u v \<longrightarrow> u \<in> D)"
    and inc: "\<forall>u v. lut_edge luts u v \<and> u \<in> D \<longrightarrow> (\<exists>lu l. ?lev ! u = Some lu \<and> ?lev ! v = Some l \<and> lu < l)"
    and pos: "\<forall>v<?n. \<forall>l. ?lev ! v = Some l \<longrightarrow> 0 \<le> l"
    unfolding visited_ok_def by simp_all
  from e have un: "u < ?n" and vn: "v < ?n" using lut_edge_bound by blast+
  from enq un src have uD: "u \<in> D" by blast
  have anc: "w \<in> D \<and> the (?lev ! w) < the (?lev ! x)" if "x \<in> D" and "(w, x) \<in> {(a, b). lut_edge luts a b}\<^sup>+" for w x
    using that(2)
  proof (induction rule: converse_trancl_induct)
    case (base y)
    then have ed: "lut_edge luts y x" by simp
    then have "x < ?n" using lut_edge_bound by blast
    with enq that(1) ed have yD: "y \<in> D" by blast
    with inc ed obtain lu l where "?lev ! y = Some lu" "?lev ! x = Some l" "lu < l" by blast
    with yD show ?case by simp
  next
    case (step y z)
    then have ed: "lut_edge luts y z" and zD: "z \<in> D" and lz: "the (?lev ! z) < the (?lev ! x)"
      by simp_all
    from ed have "z < ?n" using lut_edge_bound by blast
    with enq zD ed have yD: "y \<in> D" by blast
    with inc ed obtain lu l where "?lev ! y = Some lu" "?lev ! z = Some l" "lu < l" by blast
    with yD lz show ?case by simp
  qed
  have vD: "v \<notin> D"
  proof
    assume "v \<in> D"
    from anc [OF this cyc] show False by simp
  qed
  from inc e uD obtain lu l where lu: "?lev ! u = Some lu" and l: "?lev ! v = Some l" and lt: "lu < l"
    by blast
  from pos un lu have "0 \<le> lu" by blast
  with lt have l1: "1 \<le> l" by simp
  from vD vn Db have "D \<noteq> {..<?n}" by blast
  with Db have "card D \<noteq> card {..<?n}"
    by (metis card_subset_eq finite_lessThan)
  with cnt warn have w: "loop_warning lv" by simp
  from vn l have p: "in_level (partition_levels ?lev ?n) l v"
    by (simp add: partition_levels_in_level)
  from res w l l1 p show ?thesis by blast
qed

text \<open>
  \<open>StitcherMain\<close> calls \<open>NumberLutsByLevel\<close> only for more than 30000 LUTs, and then pairs
  the LUTs of the partition. Up to 30000 LUTs the exhaustive search runs on all pairs, no
  level is computed and no warning is given, with or without a cycle.
\<close>

lemma small_design_not_leveled:
  "length all_luts \<le> LAYERED_SEARCH_THRESHOLD \<Longrightarrow>
   find_candidates all_luts = Inr (priority_queue_of (FindMergeCandidates_Global all_luts), [])"
  by (simp add: find_candidates_def)

lemma large_design_leveled:
  "LAYERED_SEARCH_THRESHOLD < length all_luts \<Longrightarrow> NumberLutsByLevel all_luts = Inr lv \<Longrightarrow>
   find_candidates all_luts
     = Inr (priority_queue_of
              (FindMergeCandidates_Layered all_luts (partition_levels (levels lv) (length all_luts))),
            if loop_warning lv then [Loop_warning] else [])"
  by (simp add: find_candidates_def)

text \<open>
  C7 at its failing input. \<open>B\<close> and \<open>C\<close> feed each other and \<open>A\<close> feeds \<open>B\<close>. \<open>NumberLutsByLevel\<close>
  processes \<open>A\<close> only and gives the warning. \<open>C\<close> has no level and is left out of the
  partition. But \<open>B\<close>, which is on the cycle and was never processed, has the level 1 that
  the processing of \<open>A\<close> wrote: it is neither without a level, as the comment under the
  warning says of the LUTs of a cycle, nor at a default level, nor out of the pairing.
  The partition \<open>StitcherMain\<close> builds holds \<open>B\<close> at level 1, the layered search pairs it
  with \<open>A\<close>, and \<open>PlanMerges\<close> fuses the two.
\<close>

theorem cycle_level_failing_input:
  "NumberLutsByLevel ex_loop = Inr \<lparr>levels = [Some 0, Some 1, None], processed = 1, loop_warning = True\<rparr>
   \<and> depends ex_loop 1 2 \<and> depends ex_loop 2 1
   \<and> partition_levels [Some 0, Some 1, None] (length ex_loop) = [(0, [0]), (1, [1])]
   \<and> map (\<lambda>c. (idx_a c, idx_b c, type_m c)) (FindMergeCandidates_Layered ex_loop [(0, [0]), (1, [1])])
        = [(0, 1, SHARED_INPUTS)]
   \<and> (case PlanMerges id id ex_loop
              (priority_queue_of (FindMergeCandidates_Layered ex_loop [(0, [0]), (1, [1])])) of
        Inl e \<Rightarrow> False
      | Inr (luts', plans) \<Rightarrow>
          map (\<lambda>p. (cell_a_to_remove p, cell_b_to_remove p)) plans = [(''A'', ''B'')])"
  by code_simp
section \<open>The priority queue\<close>

text \<open>
  The queue hands out exactly the candidates that were pushed, each as often as it was
  pushed, and in the order of their scores, highest first.
\<close>

text \<open>
  The heap functions permute the vector: placing the value in the hole gives the elements
  of the vector in which the value stood in the first hole.
\<close>

lemma hole_move:
  assumes "h < length xs" and "p < length xs"
  shows "mset (xs[h := xs ! p, p := v]) = mset (xs[h := v])"
proof (cases "p = h")
  case True
  then show ?thesis by simp
next
  case False
  let ?ls = "xs[h := v]"
  from assms have "mset (?ls[h := ?ls ! p, p := ?ls ! h]) = mset ?ls"
    by (intro mset_swap) simp_all
  with False assms show ?thesis by simp
qed

lemma std_push_heap_aux_mset:
  "holeIndex < length first \<Longrightarrow>
   mset (std_push_heap_aux first holeIndex topIndex val) = mset (first[holeIndex := val])"
proof (induction first holeIndex topIndex val rule: std_push_heap_aux.induct)
  case (1 first holeIndex topIndex val)
  let ?p = "(holeIndex - 1) div 2"
  show ?case
  proof (cases "holeIndex > topIndex \<and> score (first ! ?p) < score val")
    case True
    from "1.prems" have p: "?p < length first" by simp
    have "std_push_heap_aux first holeIndex topIndex val
        = std_push_heap_aux (first[holeIndex := first ! ?p]) ?p topIndex val"
      using True by (subst std_push_heap_aux.simps) (simp add: Let_def)
    also have "mset \<dots> = mset (first[holeIndex := first ! ?p, ?p := val])"
      using "1.IH" [OF refl True] p by simp
    also have "\<dots> = mset (first[holeIndex := val])"
      using "1.prems" p by (rule hole_move)
    finally show ?thesis .
  next
    case False
    then show ?thesis
      by (subst std_push_heap_aux.simps) (auto simp: Let_def)
  qed
qed

lemma std_push_heap_aux_above:
  "holeIndex < i \<Longrightarrow> std_push_heap_aux first holeIndex topIndex val ! i = first ! i"
proof (induction first holeIndex topIndex val rule: std_push_heap_aux.induct)
  case (1 first holeIndex topIndex val)
  let ?p = "(holeIndex - 1) div 2"
  show ?case
  proof (cases "holeIndex > topIndex \<and> score (first ! ?p) < score val")
    case True
    from "1.prems" have p: "?p < i" by simp
    have "std_push_heap_aux first holeIndex topIndex val
        = std_push_heap_aux (first[holeIndex := first ! ?p]) ?p topIndex val"
      using True by (subst std_push_heap_aux.simps) (simp add: Let_def)
    with "1.IH" [OF refl True p] "1.prems" show ?thesis by simp
  next
    case False
    with "1.prems" show ?thesis
      by (subst std_push_heap_aux.simps) (auto simp: Let_def)
  qed
qed

lemma std_adjust_heap_loop_inv:
  assumes "std_adjust_heap_loop first len holeIndex secondChild = (first', holeIndex', secondChild')"
    and "holeIndex < len" and "len \<le> length first" and "holeIndex = secondChild"
  shows "holeIndex' < len \<and> holeIndex' = secondChild' \<and> \<not> secondChild' < (len - 1) div 2
     \<and> (\<forall>v. mset (first'[holeIndex' := v]) = mset (first[holeIndex := v]))
     \<and> (\<forall>i\<ge>len. first' ! i = first ! i)"
  using assms
proof (induction first len holeIndex secondChild rule: std_adjust_heap_loop.induct)
  case (1 first len holeIndex secondChild)
  show ?case
  proof (cases "secondChild < (len - 1) div 2")
    case True
    let ?s1 = "2 * (secondChild + 1)"
    let ?s2 = "if score (first ! ?s1) < score (first ! (?s1 - 1)) then ?s1 - 1 else ?s1"
    let ?f = "first[holeIndex := first ! ?s2]"
    from True have s2: "?s2 < len" by auto
    have eq: "std_adjust_heap_loop first len holeIndex secondChild
        = std_adjust_heap_loop ?f len ?s2 ?s2"
      using True by (subst std_adjust_heap_loop.simps) (simp only: Let_def if_True)
    with "1.prems"(1) have run: "std_adjust_heap_loop ?f len ?s2 ?s2 = (first', holeIndex', secondChild')"
      by simp
    from "1.prems"(3) have lf: "len \<le> length ?f" by simp
    note ih = "1.IH" [OF True refl refl run s2 lf refl]
    have m: "mset (?f[?s2 := v]) = mset (first[holeIndex := v])" for v
      using "1.prems"(2,3) s2 by (intro hole_move) simp_all
    have u: "?f ! i = first ! i" if "i \<ge> len" for i
      using that "1.prems"(2) by simp
    from ih have a: "holeIndex' < len \<and> holeIndex' = secondChild' \<and> \<not> secondChild' < (len - 1) div 2"
      by blast
    have b: "\<forall>v. mset (first'[holeIndex' := v]) = mset (first[holeIndex := v])"
    proof (rule allI)
      fix v
      from ih have "mset (first'[holeIndex' := v]) = mset (?f[?s2 := v])"
        by blast
      also note m [of v]
      finally show "mset (first'[holeIndex' := v]) = mset (first[holeIndex := v])" .
    qed
    from ih have "\<forall>i\<ge>len. first' ! i = ?f ! i"
      by blast
    then have c: "\<forall>i\<ge>len. first' ! i = first ! i"
      using u by metis
    from a b c show ?thesis by blast
  next
    case False
    with "1.prems" show ?thesis
      by (subst (asm) std_adjust_heap_loop.simps) auto
  qed
qed

lemma std_adjust_heap_mset:
  assumes "holeIndex < len" and "len \<le> length first"
  shows "mset (std_adjust_heap first holeIndex len val) = mset (first[holeIndex := val])
     \<and> (\<forall>i\<ge>len. std_adjust_heap first holeIndex len val ! i = first ! i)"
proof -
  obtain first1 holeIndex1 secondChild1 where
    run: "std_adjust_heap_loop first len holeIndex holeIndex = (first1, holeIndex1, secondChild1)"
    by (cases "std_adjust_heap_loop first len holeIndex holeIndex") auto
  note inv = std_adjust_heap_loop_inv [OF run assms refl]
  from inv have h1: "holeIndex1 < len" by blast
  from inv have hs: "holeIndex1 = secondChild1" by blast
  from inv have m1: "\<forall>v. mset (first1[holeIndex1 := v]) = mset (first[holeIndex := v])" by blast
  from inv have u1: "\<forall>i\<ge>len. first1 ! i = first ! i" by blast
  from std_adjust_heap_loop_length [of first len holeIndex holeIndex] run
  have l1: "length first1 = length first" by simp
  show ?thesis
  proof (cases "even len \<and> secondChild1 = (len - 2) div 2")
    case True
    let ?h2 = "2 * (secondChild1 + 1) - 1"
    let ?f2 = "first1[holeIndex1 := first1 ! ?h2]"
    from True obtain b where b: "len = 2 * b"
      by (auto elim: evenE)
    with h1 have b1: "1 \<le> b" by simp
    from True b have "secondChild1 = b - 1" by simp
    with b b1 have h2: "?h2 < len" by simp
    have res: "std_adjust_heap first holeIndex len val = std_push_heap_aux ?f2 ?h2 holeIndex val"
      using run True by (simp add: std_adjust_heap_def Let_def)
    have "mset (std_push_heap_aux ?f2 ?h2 holeIndex val) = mset (?f2[?h2 := val])"
      using h2 assms l1 by (intro std_push_heap_aux_mset) simp
    also have "\<dots> = mset (first1[holeIndex1 := val])"
      using h1 h2 assms l1 by (intro hole_move) simp_all
    also have "\<dots> = mset (first[holeIndex := val])"
      using m1 by simp
    finally have a: "mset (std_adjust_heap first holeIndex len val) = mset (first[holeIndex := val])"
      using res by simp
    have b: "std_adjust_heap first holeIndex len val ! i = first ! i" if "i \<ge> len" for i
    proof -
      from that h2 have "?h2 < i" by simp
      then have "std_push_heap_aux ?f2 ?h2 holeIndex val ! i = ?f2 ! i"
        by (rule std_push_heap_aux_above)
      with that h1 u1 res show ?thesis by simp
    qed
    from a b show ?thesis by simp
  next
    case False
    have res: "std_adjust_heap first holeIndex len val = std_push_heap_aux first1 holeIndex1 holeIndex val"
      using run False by (auto simp: std_adjust_heap_def Let_def)
    have "mset (std_push_heap_aux first1 holeIndex1 holeIndex val) = mset (first1[holeIndex1 := val])"
      using h1 assms l1 by (intro std_push_heap_aux_mset) simp
    with m1 res have a: "mset (std_adjust_heap first holeIndex len val) = mset (first[holeIndex := val])"
      by simp
    have b: "std_adjust_heap first holeIndex len val ! i = first ! i" if "i \<ge> len" for i
    proof -
      from that h1 have "holeIndex1 < i" by simp
      then have "std_push_heap_aux first1 holeIndex1 holeIndex val ! i = first1 ! i"
        by (rule std_push_heap_aux_above)
      with that u1 res show ?thesis by simp
    qed
    from a b show ?thesis by simp
  qed
qed

lemma std_pop_heap_mset:
  "mset (std_pop_heap c) = mset c \<and> (c \<noteq> [] \<longrightarrow> last (std_pop_heap c) = c ! 0)"
proof (cases "length c > 1")
  case True
  let ?n = "length c - 1"
  let ?f = "c[?n := c ! 0]"
  have res: "std_pop_heap c = std_adjust_heap ?f 0 ?n (c ! ?n)"
    using True by (simp add: std_pop_heap_def Let_def)
  from True have "0 < ?n" "?n \<le> length ?f" by simp_all
  from std_adjust_heap_mset [OF this, of "c ! ?n"]
  have m: "mset (std_adjust_heap ?f 0 ?n (c ! ?n)) = mset (?f[0 := c ! ?n])"
    and u: "std_adjust_heap ?f 0 ?n (c ! ?n) ! ?n = ?f ! ?n"
    by simp_all
  from True have n: "0 < length c" "?n < length c" by (cases c, simp_all)+
  have "mset (c[?n := c ! 0, 0 := c ! ?n]) = mset c"
    by (rule mset_swap [OF n])
  with m res have a: "mset (std_pop_heap c) = mset c" by simp
  from True have ne: "std_pop_heap c \<noteq> []"
    using std_pop_heap_length [of c] by auto
  have "last (std_pop_heap c) = std_pop_heap c ! ?n"
    using ne std_pop_heap_length [of c] by (simp add: last_conv_nth)
  with u res True have b: "last (std_pop_heap c) = c ! 0" by auto
  from a b show ?thesis by simp
next
  case False
  then have "std_pop_heap c = c" by (simp add: std_pop_heap_def)
  moreover from False have "c \<noteq> [] \<longrightarrow> last c = c ! 0"
    by (cases c) auto
  ultimately show ?thesis by simp
qed

lemma pq_pop_mset: "mset (pq_pop (x # xs)) = mset (x # xs) - {#x#}"
proof -
  let ?c = "x # xs"
  from std_pop_heap_mset [of ?c] have m: "mset (std_pop_heap ?c) = mset ?c"
    and l: "last (std_pop_heap ?c) = x"
    by simp_all
  have ne: "std_pop_heap ?c \<noteq> []"
    using std_pop_heap_length [of ?c] by auto
  then have "std_pop_heap ?c = butlast (std_pop_heap ?c) @ [last (std_pop_heap ?c)]"
    by simp
  then have "mset (std_pop_heap ?c) = add_mset x (mset (butlast (std_pop_heap ?c)))"
    using l by (metis mset.simps(2) mset_append union_mset_add_mset_right add.right_neutral mset.simps(1))
  with m show ?thesis by (simp add: pq_pop_def)
qed

lemma pop_order_mset: "mset (pop_order c) = mset c"
proof (induction c rule: pop_order.induct)
  case 1
  then show ?case by simp
next
  case (2 x xs)
  then show ?case by (simp add: pq_pop_mset)
qed

lemma pq_push_mset: "mset (pq_push c x) = add_mset x (mset c)"
proof -
  have "mset (std_push_heap_aux (c @ [x]) (length c) 0 x) = mset ((c @ [x])[length c := x])"
    by (intro std_push_heap_aux_mset) simp
  then show ?thesis by (simp add: pq_push_def std_push_heap_def)
qed

lemma priority_queue_of_mset: "mset (priority_queue_of pushed) = mset pushed"
proof -
  have "mset (foldl pq_push queue pushed) = mset queue + mset pushed" for queue
    by (induction pushed arbitrary: queue) (simp_all add: pq_push_mset)
  then show ?thesis by (simp add: priority_queue_of_def pop_order_mset)
qed

lemma priority_queue_of_set: "set (priority_queue_of pushed) = set pushed"
  using priority_queue_of_mset [of pushed] by (metis set_mset_mset)

text \<open>
  Four candidates of equal score, pushed in the order 0, 1, 2, 3, are taken in the order
  0, 2, 1, 3; with different scores the higher score is taken first.
\<close>

lemma priority_queue_of_ties:
  "map idx_a (priority_queue_of (map (\<lambda>k. \<lparr>idx_a = k, idx_b = k + 1, score = 97, union_inputs = [],
       type_m = SHARED_INPUTS, discovered_sel_bit = SigConst Sx\<rparr>) [0, 1, 2, 3])) = [0, 2, 1, 3]
   \<and> map score (priority_queue_of (map (\<lambda>k. \<lparr>idx_a = 0, idx_b = 1, score = k, union_inputs = [],
       type_m = SHARED_INPUTS, discovered_sel_bit = SigConst Sx\<rparr>) [3, 1, 4, 1, 5, 9, 2, 6]))
      = [9, 6, 5, 4, 3, 2, 1, 1]"
  by code_simp

text \<open>
  The vector of the queue is a heap after every \<^verbatim>\<open>push\<close> and \<^verbatim>\<open>pop\<close>, so that the candidates
  are taken in the order of their scores, highest first.
\<close>

lemma hole_up_step:
  assumes inv: "hole_up first n h val" and len: "n \<le> length first" and h: "0 < h"
    and lt: "score (first ! ((h - 1) div 2)) < score val"
  shows "hole_up (first[h := first ! ((h - 1) div 2)]) n ((h - 1) div 2) val"
proof -
  let ?p = "(h - 1) div 2"
  let ?f = "first[h := first ! ?p]"
  from inv have hn: "h < n"
    and c2: "\<And>i. 0 < i \<Longrightarrow> i < n \<Longrightarrow> i \<noteq> h \<Longrightarrow> (i - 1) div 2 \<noteq> h \<Longrightarrow>
             score (first ! i) \<le> score (first ! ((i - 1) div 2))"
    and c3: "\<And>i. 0 < i \<Longrightarrow> i < n \<Longrightarrow> (i - 1) div 2 = h \<Longrightarrow>
             score (first ! i) \<le> score (first ! ?p)"
    using h by (auto simp: hole_up_def hole_down_def)
  from h have ph: "?p < h" by simp
  from hn len have hl: "h < length first" by simp
  have a: "?p < n" using ph hn by simp
  have b: "score (?f ! i) \<le> score (?f ! ((i - 1) div 2))"
    if "0 < i" "i < n" "i \<noteq> ?p" "(i - 1) div 2 \<noteq> ?p" for i
  proof -
    from that ph have ih: "i \<noteq> h" by auto
    show ?thesis
    proof (cases "(i - 1) div 2 = h")
      case True
      with c3 [OF that(1,2) True] ih show ?thesis by (simp add: nth_list_update hl)
    next
      case False
      with c2 [OF that(1,2) ih False] ih show ?thesis by (simp add: nth_list_update hl)
    qed
  qed
  have sib: "score (first ! i) \<le> score (first ! ?p)" if "0 < i" "i < n" "(i - 1) div 2 = ?p" "i \<noteq> h" for i
    using c2 [OF that(1,2,4)] that(3) ph by simp
  have c: "score (?f ! i) \<le> score val" if "0 < i" "i < n" "(i - 1) div 2 = ?p" for i
  proof (cases "i = h")
    case True
    with lt show ?thesis by (simp add: nth_list_update hl)
  next
    case False
    with sib [OF that False] lt show ?thesis by (simp add: nth_list_update hl)
  qed
  have d: "score (?f ! i) \<le> score (?f ! ((?p - 1) div 2))"
    if "0 < i" "i < n" "(i - 1) div 2 = ?p" "0 < ?p" for i
  proof -
    from that(4) ph have pp: "(?p - 1) div 2 \<noteq> h" "?p \<noteq> h" by simp_all
    have up: "score (first ! ?p) \<le> score (first ! ((?p - 1) div 2))"
      using c2 [OF that(4) a pp(2) pp(1)] .
    show ?thesis
    proof (cases "i = h")
      case True
      with up pp show ?thesis by (simp add: nth_list_update hl)
    next
      case False
      with sib [OF that(1,2,3) False] up pp show ?thesis by (simp add: nth_list_update hl)
    qed
  qed
  from a b c d show ?thesis
    unfolding hole_up_def hole_down_def by blast
qed

lemma hole_up_place:
  assumes inv: "hole_up first n h val" and len: "n \<le> length first"
    and stop: "\<not> (0 < h \<and> score (first ! ((h - 1) div 2)) < score val)"
  shows "heap_upto (first[h := val]) n"
proof -
  let ?p = "(h - 1) div 2"
  let ?f = "first[h := val]"
  from inv have hn: "h < n"
    and c2: "\<And>i. 0 < i \<Longrightarrow> i < n \<Longrightarrow> i \<noteq> h \<Longrightarrow> (i - 1) div 2 \<noteq> h \<Longrightarrow>
             score (first ! i) \<le> score (first ! ((i - 1) div 2))"
    and c4: "\<And>i. 0 < i \<Longrightarrow> i < n \<Longrightarrow> (i - 1) div 2 = h \<Longrightarrow> score (first ! i) \<le> score val"
    by (auto simp: hole_up_def hole_down_def)
  from hn len have hl: "h < length first" by simp
  have "score (?f ! i) \<le> score (?f ! ((i - 1) div 2))" if "0 < i" "i < n" for i
  proof -
    from that have pn: "(i - 1) div 2 < n" "(i - 1) div 2 \<noteq> i" by simp_all
    show ?thesis
    proof (cases "i = h")
      case True
      with stop that have "score val \<le> score (first ! ?p)" by simp
      with True pn that show ?thesis by (simp add: nth_list_update hl)
    next
      case False
      show ?thesis
      proof (cases "(i - 1) div 2 = h")
        case True
        with c4 [OF that True] False that pn show ?thesis by (simp add: nth_list_update hl)
      next
        case F2: False
        with c2 [OF that False F2] False that pn show ?thesis by (simp add: nth_list_update hl)
      qed
    qed
  qed
  then show ?thesis by (simp add: heap_upto_def)
qed

lemma std_push_heap_aux_heap:
  "hole_up first n holeIndex val \<Longrightarrow> n \<le> length first \<Longrightarrow>
   heap_upto (std_push_heap_aux first holeIndex 0 val) n"
proof (induction first holeIndex "0::nat" val rule: std_push_heap_aux.induct)
  case (1 first holeIndex val)
  let ?p = "(holeIndex - 1) div 2"
  show ?case
  proof (cases "holeIndex > 0 \<and> score (first ! ?p) < score val")
    case True
    have eq: "std_push_heap_aux first holeIndex 0 val
        = std_push_heap_aux (first[holeIndex := first ! ?p]) ?p 0 val"
      using True by (subst std_push_heap_aux.simps) (simp add: Let_def)
    from True "1.prems" have "hole_up (first[holeIndex := first ! ?p]) n ?p val"
      by (intro hole_up_step) simp_all
    moreover from "1.prems"(2) have "n \<le> length (first[holeIndex := first ! ?p])" by simp
    ultimately have "heap_upto (std_push_heap_aux (first[holeIndex := first ! ?p]) ?p 0 val) n"
      using "1.hyps" [OF refl True] by simp
    with eq show ?thesis by simp
  next
    case False
    then have eq: "std_push_heap_aux first holeIndex 0 val = first[holeIndex := val]"
      by (subst std_push_heap_aux.simps) (auto simp: Let_def)
    from "1.prems" False show ?thesis
      unfolding eq by (intro hole_up_place) simp_all
  qed
qed


lemma hole_down_step:
  assumes inv: "hole_down first n h" and len: "n \<le> length first"
    and k: "0 < k" "k < n" "(k - 1) div 2 = h"
    and best: "\<And>i. 0 < i \<Longrightarrow> i < n \<Longrightarrow> (i - 1) div 2 = h \<Longrightarrow> score (first ! i) \<le> score (first ! k)"
  shows "hole_down (first[h := first ! k]) n k"
proof -
  let ?f = "first[h := first ! k]"
  from inv have hn: "h < n"
    and c2: "\<And>i. 0 < i \<Longrightarrow> i < n \<Longrightarrow> i \<noteq> h \<Longrightarrow> (i - 1) div 2 \<noteq> h \<Longrightarrow>
             score (first ! i) \<le> score (first ! ((i - 1) div 2))"
    and c3: "\<And>i. 0 < i \<Longrightarrow> i < n \<Longrightarrow> (i - 1) div 2 = h \<Longrightarrow> 0 < h \<Longrightarrow>
             score (first ! i) \<le> score (first ! ((h - 1) div 2))"
    by (auto simp: hole_down_def)
  from hn len have hl: "h < length first" by simp
  from k have hk: "h < k" by auto
  have b: "score (?f ! i) \<le> score (?f ! ((i - 1) div 2))"
    if "0 < i" "i < n" "i \<noteq> k" "(i - 1) div 2 \<noteq> k" for i
  proof (cases "i = h")
    case True
    with that have h0: "0 < h" and ph: "(h - 1) div 2 \<noteq> h" by simp_all
    from c3 [OF k h0] True ph show ?thesis by (simp add: nth_list_update hl)
  next
    case False
    show ?thesis
    proof (cases "(i - 1) div 2 = h")
      case True
      with best [OF that(1,2) True] False show ?thesis by (simp add: nth_list_update hl)
    next
      case F2: False
      with c2 [OF that(1,2) False F2] False show ?thesis by (simp add: nth_list_update hl)
    qed
  qed
  have c: "score (?f ! i) \<le> score (?f ! ((k - 1) div 2))"
    if "0 < i" "i < n" "(i - 1) div 2 = k" "0 < k" for i
  proof -
    from that hk have ih: "i \<noteq> h" "(i - 1) div 2 \<noteq> h" by auto
    from c2 [OF that(1,2) ih] that(3) have "score (first ! i) \<le> score (first ! k)" by simp
    with ih k(3) show ?thesis by (simp add: nth_list_update hl)
  qed
  from k(2) b c show ?thesis
    unfolding hole_down_def by blast
qed

lemma heap_children: "0 < i \<Longrightarrow> (i - 1) div 2 = h \<Longrightarrow> i = 2 * h + 1 \<or> i = 2 * h + (2::nat)"
  by auto

lemma std_adjust_heap_loop_heap:
  assumes "std_adjust_heap_loop first len holeIndex secondChild = (first', holeIndex', secondChild')"
    and "hole_down first len holeIndex" and "len \<le> length first" and "holeIndex = secondChild"
  shows "hole_down first' len holeIndex'"
  using assms
proof (induction first len holeIndex secondChild rule: std_adjust_heap_loop.induct)
  case (1 first len holeIndex secondChild)
  show ?case
  proof (cases "secondChild < (len - 1) div 2")
    case True
    let ?s1 = "2 * (secondChild + 1)"
    let ?s2 = "if score (first ! ?s1) < score (first ! (?s1 - 1)) then ?s1 - 1 else ?s1"
    let ?f = "first[holeIndex := first ! ?s2]"
    have eq: "std_adjust_heap_loop first len holeIndex secondChild
        = std_adjust_heap_loop ?f len ?s2 ?s2"
      using True by (subst std_adjust_heap_loop.simps) (simp only: Let_def if_True)
    with "1.prems"(1) have run: "std_adjust_heap_loop ?f len ?s2 ?s2 = (first', holeIndex', secondChild')"
      by simp
    from "1.prems"(3) have lf: "len \<le> length ?f" by simp
    from True have s1: "?s1 < len" by auto
    have k: "0 < ?s2" "?s2 < len" "(?s2 - 1) div 2 = holeIndex"
      using s1 "1.prems"(4) by auto
    have best: "score (first ! i) \<le> score (first ! ?s2)"
      if "0 < i" "i < len" "(i - 1) div 2 = holeIndex" for i
    proof -
      from heap_children [OF that(1,3)] "1.prems"(4) have "i = ?s1 - 1 \<or> i = ?s1" by auto
      then show ?thesis by auto
    qed
    have "hole_down ?f len ?s2"
      using "1.prems"(2,3) k best by (rule hole_down_step)
    from "1.IH" [OF True refl refl run this lf refl] show ?thesis .
  next
    case False
    with "1.prems" show ?thesis
      by (subst (asm) std_adjust_heap_loop.simps) auto
  qed
qed

lemma std_adjust_heap_heap:
  assumes hd: "hole_down first len 0" and len: "len \<le> length first"
  shows "heap_upto (std_adjust_heap first 0 len val) len"
proof -
  obtain first1 holeIndex1 secondChild1 where
    run: "std_adjust_heap_loop first len 0 0 = (first1, holeIndex1, secondChild1)"
    by (cases "std_adjust_heap_loop first len 0 0") auto
  from hd have l0: "0 < len" by (simp add: hole_down_def)
  note inv = std_adjust_heap_loop_inv [OF run l0 len refl]
  from inv have h1: "holeIndex1 < len" by blast
  from inv have hs: "holeIndex1 = secondChild1" by blast
  from inv have stop: "\<not> secondChild1 < (len - 1) div 2" by blast
  from std_adjust_heap_loop_length [of first len 0 0] run
  have l1: "length first1 = length first" by simp
  have hd1: "hole_down first1 len holeIndex1"
    using run hd len refl by (rule std_adjust_heap_loop_heap)
  show ?thesis
  proof (cases "even len \<and> secondChild1 = (len - 2) div 2")
    case True
    let ?h2 = "2 * (secondChild1 + 1) - 1"
    let ?f2 = "first1[holeIndex1 := first1 ! ?h2]"
    from True obtain b where b: "len = 2 * b"
      by (auto elim: evenE)
    with h1 have b1: "1 \<le> b" by simp
    from True b have sc: "secondChild1 = b - 1" by simp
    with b b1 have h2: "?h2 = len - 1" "?h2 < len" "0 < ?h2" "(?h2 - 1) div 2 = holeIndex1"
      using hs by auto
    have res: "std_adjust_heap first 0 len val = std_push_heap_aux ?f2 ?h2 0 val"
      using run True by (simp add: std_adjust_heap_def Let_def)
    have best: "score (first1 ! i) \<le> score (first1 ! ?h2)"
      if "0 < i" "i < len" "(i - 1) div 2 = holeIndex1" for i
    proof -
      from heap_children [OF that(1,3)] hs sc b b1 that(2) have "i = ?h2" by auto
      then show ?thesis by simp
    qed
    from len l1 have len1: "len \<le> length first1" by simp
    have "hole_down ?f2 len ?h2"
      using hd1 len1 h2(3,2,4) best by (rule hole_down_step)
    moreover have "\<forall>i. 0 < i \<and> i < len \<and> (i - 1) div 2 = ?h2 \<longrightarrow> score (?f2 ! i) \<le> score val"
      using h2(1) by auto
    ultimately have "hole_up ?f2 len ?h2 val"
      by (simp add: hole_up_def)
    moreover from len1 have "len \<le> length ?f2" by simp
    ultimately have "heap_upto (std_push_heap_aux ?f2 ?h2 0 val) len"
      by (rule std_push_heap_aux_heap)
    with res show ?thesis by simp
  next
    case False
    have res: "std_adjust_heap first 0 len val = std_push_heap_aux first1 holeIndex1 0 val"
      using run False by (auto simp: std_adjust_heap_def Let_def)
    have none: "\<forall>i. 0 < i \<and> i < len \<and> (i - 1) div 2 = holeIndex1 \<longrightarrow> score (first1 ! i) \<le> score val"
    proof (intro allI impI)
      fix i assume i: "0 < i \<and> i < len \<and> (i - 1) div 2 = holeIndex1"
      then have "i = 2 * holeIndex1 + 1 \<or> i = 2 * holeIndex1 + 2"
        using heap_children by blast
      with i have lt: "2 * holeIndex1 + 1 < len" by auto
      from stop hs have ge: "(len - 1) div 2 \<le> holeIndex1" by simp
      from False hs have ne: "\<not> (even len \<and> holeIndex1 = (len - 2) div 2)" by simp
      from lt ge ne have False by presburger
      then show "score (first1 ! i) \<le> score val" ..
    qed
    with hd1 have "hole_up first1 len holeIndex1 val"
      by (simp add: hole_up_def)
    moreover from len l1 have "len \<le> length first1" by simp
    ultimately have "heap_upto (std_push_heap_aux first1 holeIndex1 0 val) len"
      by (rule std_push_heap_aux_heap)
    with res show ?thesis by simp
  qed
qed

lemma pq_push_length: "length (pq_push c x) = Suc (length c)"
  by (simp add: pq_push_def std_push_heap_def std_push_heap_aux_length)

lemma pq_pop_length: "length (pq_pop c) = length c - 1"
  by (simp add: pq_pop_def std_pop_heap_length)

lemma pq_push_heap:
  assumes "heap_upto c (length c)"
  shows "heap_upto (pq_push c x) (length (pq_push c x))"
proof -
  let ?f = "c @ [x]"
  have "hole_down ?f (Suc (length c)) (length c)"
    unfolding hole_down_def
  proof (intro conjI allI impI)
    show "length c < Suc (length c)" by simp
  next
    fix i assume i: "0 < i \<and> i < Suc (length c) \<and> i \<noteq> length c \<and> (i - 1) div 2 \<noteq> length c"
    then have "i < length c" "(i - 1) div 2 < length c" by auto
    with assms i show "score (?f ! i) \<le> score (?f ! ((i - 1) div 2))"
      by (simp add: heap_upto_def nth_append)
  next
    fix i assume "0 < i \<and> i < Suc (length c) \<and> (i - 1) div 2 = length c \<and> 0 < length c"
    then have False by auto
    then show "score (?f ! i) \<le> score (?f ! ((length c - 1) div 2))" ..
  qed
  moreover have "\<forall>i. 0 < i \<and> i < Suc (length c) \<and> (i - 1) div 2 = length c \<longrightarrow> score (?f ! i) \<le> score x"
    by auto
  ultimately have "hole_up ?f (Suc (length c)) (length c) x"
    by (simp add: hole_up_def)
  then have "heap_upto (std_push_heap_aux ?f (length c) 0 x) (Suc (length c))"
    by (rule std_push_heap_aux_heap) simp
  then show ?thesis
    by (simp add: pq_push_length) (simp add: pq_push_def std_push_heap_def)
qed

lemma pq_pop_heap:
  assumes "heap_upto c (length c)"
  shows "heap_upto (pq_pop c) (length (pq_pop c))"
proof (cases "length c > 1")
  case True
  let ?n = "length c - 1"
  let ?f = "c[?n := c ! 0]"
  have res: "std_pop_heap c = std_adjust_heap ?f 0 ?n (c ! ?n)"
    using True by (simp add: std_pop_heap_def Let_def)
  have "hole_down ?f ?n 0"
    unfolding hole_down_def
  proof (intro conjI allI impI)
    from True show "0 < ?n" by simp
  next
    fix i assume i: "0 < i \<and> i < ?n \<and> i \<noteq> 0 \<and> (i - 1) div 2 \<noteq> 0"
    then have "i < length c" "i \<noteq> ?n" "(i - 1) div 2 \<noteq> ?n" by auto
    with assms i show "score (?f ! i) \<le> score (?f ! ((i - 1) div 2))"
      by (simp add: heap_upto_def)
  next
    fix i assume "0 < i \<and> i < ?n \<and> (i - 1) div 2 = 0 \<and> (0::nat) < 0"
    then show "score (?f ! i) \<le> score (?f ! ((0 - 1) div 2))" by simp
  qed
  then have "heap_upto (std_adjust_heap ?f 0 ?n (c ! ?n)) ?n"
    by (rule std_adjust_heap_heap) simp
  with res have h: "heap_upto (std_pop_heap c) ?n" by simp
  have "heap_upto (butlast (std_pop_heap c)) ?n"
    unfolding heap_upto_def
  proof (intro allI impI)
    fix i assume i: "0 < i \<and> i < ?n"
    then have "i < ?n" "(i - 1) div 2 < ?n"
      by auto
    then have "i < length (butlast (std_pop_heap c))" "(i - 1) div 2 < length (butlast (std_pop_heap c))"
      by (simp_all add: std_pop_heap_length)
    then have "butlast (std_pop_heap c) ! i = std_pop_heap c ! i"
      "butlast (std_pop_heap c) ! ((i - 1) div 2) = std_pop_heap c ! ((i - 1) div 2)"
      by (simp_all add: nth_butlast)
    with h i show "score (butlast (std_pop_heap c) ! i) \<le> score (butlast (std_pop_heap c) ! ((i - 1) div 2))"
      by (simp add: heap_upto_def)
  qed
  then show ?thesis by (simp add: pq_pop_length) (simp add: pq_pop_def)
next
  case False
  then have "length (pq_pop c) = 0" by (simp add: pq_pop_length)
  then show ?thesis by (simp add: heap_upto_def)
qed

lemma heap_top:
  assumes "heap_upto c n"
  shows "i < n \<Longrightarrow> score (c ! i) \<le> score (c ! 0)"
proof (induction i rule: less_induct)
  case (less i)
  show ?case
  proof (cases "i = 0")
    case True
    then show ?thesis by simp
  next
    case False
    then have p: "(i - 1) div 2 < i" by simp
    from assms False less.prems have "score (c ! i) \<le> score (c ! ((i - 1) div 2))"
      by (simp add: heap_upto_def)
    also from less.IH [OF p] p less.prems have "\<dots> \<le> score (c ! 0)" by simp
    finally show ?thesis .
  qed
qed

lemma pop_order_sorted:
  "heap_upto c (length c) \<Longrightarrow> sorted_wrt (\<lambda>a b. score b \<le> score a) (pop_order c)"
proof (induction c rule: pop_order.induct)
  case 1
  then show ?case by simp
next
  case (2 x xs)
  let ?c = "x # xs"
  from "2.prems" have "heap_upto (pq_pop ?c) (length (pq_pop ?c))"
    by (rule pq_pop_heap)
  with "2.IH" have s: "sorted_wrt (\<lambda>a b. score b \<le> score a) (pop_order (pq_pop ?c))" .
  have "score y \<le> score x" if "y \<in> set (pop_order (pq_pop ?c))" for y
  proof -
    from that have "y \<in># mset (pq_pop ?c)"
      using pop_order_mset [of "pq_pop ?c"] by (metis set_mset_mset)
    then have "y \<in># mset ?c"
      unfolding pq_pop_mset by (rule in_diffD)
    then have "y \<in> set ?c" by simp
    then obtain i where "i < length ?c" "?c ! i = y"
      by (metis in_set_conv_nth)
    with heap_top [OF "2.prems", of i] show ?thesis by auto
  qed
  with s show ?case by simp
qed

lemma priority_queue_of_sorted:
  "sorted_wrt (\<lambda>a b. score b \<le> score a) (priority_queue_of pushed)"
proof -
  have "heap_upto (foldl pq_push queue pushed) (length (foldl pq_push queue pushed))"
    if "heap_upto queue (length queue)" for queue
    using that by (induction pushed arbitrary: queue) (simp_all add: pq_push_heap)
  from this [of "[]"] have "heap_upto (foldl pq_push [] pushed) (length (foldl pq_push [] pushed))"
    by (simp add: heap_upto_def)
  then show ?thesis
    unfolding priority_queue_of_def by (rule pop_order_sorted)
qed

section \<open>The candidates and the LUT list of a run\<close>

text \<open>
  The planner's invariant is stated for candidates that name two different LUTs and for a
  LUT list of pairwise different cells. Both hold in a run: whichever search is used, each
  candidate names two different positions of the list, and \<open>CollectLuts\<close> gives the LUT
  records the names of the module's LUT cells, in order.
\<close>

lemma global_shared_body_indices:
  "c \<in> set (global_shared_body luts i j) \<Longrightarrow> idx_a c = i \<and> idx_b c = j"
  by (auto simp: global_shared_body_def Let_def split: if_splits)

lemma global_absorb_body_indices:
  "c \<in> set (global_absorb_body luts i j) \<Longrightarrow> idx_a c = i \<and> idx_b c = j \<and> i \<noteq> j"
  by (auto simp: global_absorb_body_def Let_def split: if_splits option.splits)

lemma layered_pair_indices:
  "c \<in> set (layered_pair luts a b) \<Longrightarrow>
     (idx_a c = a \<and> idx_b c = b) \<or> (idx_a c = b \<and> idx_b c = a)"
  by (auto simp: layered_pair_def check_shared_inputs_def check_lut6_absorb_def Let_def
      split: if_splits option.splits)

lemma FindMergeCandidates_Global_indices:
  assumes "c \<in> set (FindMergeCandidates_Global luts)"
  shows "idx_a c \<noteq> idx_b c \<and> idx_a c < length luts \<and> idx_b c < length luts"
proof -
  from assms consider
    i j where "i < length luts" "Suc i \<le> j" "j < length luts" "c \<in> set (global_shared_body luts i j)"
  | i j where "i < length luts" "j < length luts" "c \<in> set (global_absorb_body luts i j)"
    unfolding FindMergeCandidates_Global_def by (auto simp del: upt_Suc)
  then show ?thesis
  proof cases
    case 1
    with global_shared_body_indices [OF 1(4)] show ?thesis by simp
  next
    case 2
    with global_absorb_body_indices [OF 2(3)] show ?thesis by simp
  qed
qed

lemma level_push_back_lists:
  assumes "\<forall>(l, xs) \<in> set m. sorted_wrt (<) xs \<and> set xs \<subseteq> {..<k}"
  shows "\<forall>(l, xs) \<in> set (level_push_back m level k). sorted_wrt (<) xs \<and> set xs \<subseteq> {..<Suc k}"
  using assms
proof (induction m)
  case Nil
  then show ?case by simp
next
  case (Cons p m)
  obtain l vs where p: "p = (l, vs)" by (cases p)
  from Cons.prems have h: "sorted_wrt (<) vs" "set vs \<subseteq> {..<k}"
    and t: "\<forall>(l, xs) \<in> set m. sorted_wrt (<) xs \<and> set xs \<subseteq> {..<k}"
    by (auto simp: p)
  from h have app: "sorted_wrt (<) (vs @ [k])" "set (vs @ [k]) \<subseteq> {..<Suc k}"
    by (auto simp: sorted_wrt_append)
  from h have h': "set vs \<subseteq> {..<Suc k}" by auto
  from t have t': "\<forall>(l, xs) \<in> set m. sorted_wrt (<) xs \<and> set xs \<subseteq> {..<Suc k}" by fastforce
  from Cons.IH [OF t] h h' t' app show ?case by (auto simp: p)
qed

lemma partition_lists_upto:
  "k \<le> n \<Longrightarrow>
   \<forall>(l, xs) \<in> set (foldl (\<lambda>m i. case lvs ! i of None \<Rightarrow> m | Some level \<Rightarrow> level_push_back m level i) [] [0..<k]).
      sorted_wrt (<) xs \<and> set xs \<subseteq> {..<k}"
proof (induction k)
  case 0
  show ?case by simp
next
  case (Suc k)
  let ?m = "foldl (\<lambda>m i. case lvs ! i of None \<Rightarrow> m | Some level \<Rightarrow> level_push_back m level i) [] [0..<k]"
  from Suc have ih: "\<forall>(l, xs) \<in> set ?m. sorted_wrt (<) xs \<and> set xs \<subseteq> {..<k}" by simp
  show ?case
  proof (cases "lvs ! k")
    case None
    from ih have "\<forall>(l, xs) \<in> set ?m. sorted_wrt (<) xs \<and> set xs \<subseteq> {..<Suc k}" by fastforce
    with None show ?thesis by simp
  next
    case (Some level)
    with level_push_back_lists [OF ih, of level] show ?thesis by simp
  qed
qed

lemma partition_levels_entries:
  assumes "(l, xs) \<in> set (partition_levels lvs n)"
  shows "distinct xs \<and> (\<forall>v \<in> set xs. v < n \<and> lvs ! v = Some l)
     \<and> map_of (partition_levels lvs n) l = Some xs"
proof -
  from partition_upto [OF le_refl, of lvs n]
  have s: "sorted_wrt (<) (map fst (partition_levels lvs n))"
    by (simp add: partition_levels_def)
  then have "distinct (map fst (partition_levels lvs n))"
    by (simp add: strict_sorted_iff)
  with assms have m: "map_of (partition_levels lvs n) l = Some xs" by simp
  from partition_lists_upto [OF le_refl, of lvs n] assms have "sorted_wrt (<) xs"
    unfolding partition_levels_def by fastforce
  then have d: "distinct xs" by (simp add: strict_sorted_iff)
  have "\<forall>v \<in> set xs. v < n \<and> lvs ! v = Some l"
  proof
    fix v assume "v \<in> set xs"
    with m have "in_level (partition_levels lvs n) l v" by (simp add: in_level_def)
    then show "v < n \<and> lvs ! v = Some l" by (simp add: partition_levels_in_level)
  qed
  with d m show ?thesis by simp
qed

lemma FindMergeCandidates_Layered_indices:
  assumes "c \<in> set (FindMergeCandidates_Layered luts (partition_levels lvs (length luts)))"
  shows "idx_a c \<noteq> idx_b c \<and> idx_a c < length luts \<and> idx_b c < length luts"
proof -
  let ?part = "partition_levels lvs (length luts)"
  from assms obtain entry where en: "entry \<in> set ?part"
    and ce: "c \<in> set ((\<lambda>(level, xs).
        concat (map (\<lambda>i. concat (map (\<lambda>j. layered_pair luts (xs ! i) (xs ! j))
                                      [Suc i..<length xs])) [0..<length xs])
        @ (case map_of ?part (level + 1) of
             None \<Rightarrow> []
           | Some ys \<Rightarrow> concat (map (\<lambda>a. concat (map (\<lambda>b. layered_pair luts a b) ys)) xs))) entry)"
    unfolding FindMergeCandidates_Layered_def set_concat set_map by blast
  obtain level xs where entry: "entry = (level, xs)" by (cases entry)
  from en entry have e: "(level, xs) \<in> set ?part" by simp
  from ce entry have c: "c \<in> set (concat (map (\<lambda>i. concat (map (\<lambda>j. layered_pair luts (xs ! i) (xs ! j))
                                      [Suc i..<length xs])) [0..<length xs]))
          \<or> c \<in> set (case map_of ?part (level + 1) of
             None \<Rightarrow> []
           | Some ys \<Rightarrow> concat (map (\<lambda>a. concat (map (\<lambda>b. layered_pair luts a b) ys)) xs))"
    by simp
  from partition_levels_entries [OF e] have dx: "distinct xs"
    and vx: "\<forall>v \<in> set xs. v < length luts \<and> lvs ! v = Some level" by simp_all
  from c obtain a b where p: "c \<in> set (layered_pair luts a b)" and ab: "a \<noteq> b"
    and ra: "a < length luts" and rb: "b < length luts"
  proof
    assume "c \<in> set (concat (map (\<lambda>i. concat (map (\<lambda>j. layered_pair luts (xs ! i) (xs ! j))
                                      [Suc i..<length xs])) [0..<length xs]))"
    then obtain i j where ij: "Suc i \<le> j" "j < length xs" and cc: "c \<in> set (layered_pair luts (xs ! i) (xs ! j))"
      by (auto simp del: upt_Suc)
    from ij have il: "i < j" "i < length xs" by simp_all
    from ij il dx have "xs ! i \<noteq> xs ! j" by (simp add: nth_eq_iff_index_eq)
    moreover from ij il vx have "xs ! i < length luts" "xs ! j < length luts" by simp_all
    ultimately show ?thesis using cc that by blast
  next
    assume "c \<in> set (case map_of ?part (level + 1) of
             None \<Rightarrow> []
           | Some ys \<Rightarrow> concat (map (\<lambda>a. concat (map (\<lambda>b. layered_pair luts a b) ys)) xs))"
    then obtain ys where m: "map_of ?part (level + 1) = Some ys"
      and "c \<in> set (concat (map (\<lambda>a. concat (map (\<lambda>b. layered_pair luts a b) ys)) xs))"
      by (cases "map_of ?part (level + 1)") auto
    then obtain a b where a: "a \<in> set xs" and b: "b \<in> set ys"
      and cc: "c \<in> set (layered_pair luts a b)"
      by auto
    from m have "(level + 1, ys) \<in> set ?part" by (rule map_of_SomeD)
    from partition_levels_entries [OF this] b have "b < length luts" "lvs ! b = Some (level + 1)"
      by simp_all
    moreover from vx a have "a < length luts" "lvs ! a = Some level" by simp_all
    ultimately have "a \<noteq> b" "a < length luts" "b < length luts" by auto
    with cc that show ?thesis by blast
  qed
  from layered_pair_indices [OF p] ab ra rb show ?thesis by auto
qed

lemma find_candidates_indices:
  assumes "find_candidates luts = Inr (candidates, msgs)"
  shows "\<forall>c \<in> set candidates. idx_a c \<noteq> idx_b c \<and> idx_a c < length luts \<and> idx_b c < length luts"
proof (cases "length luts \<le> LAYERED_SEARCH_THRESHOLD")
  case True
  with assms have "candidates = priority_queue_of (FindMergeCandidates_Global luts)"
    by (simp add: find_candidates_def)
  then show ?thesis
    using FindMergeCandidates_Global_indices by (simp add: priority_queue_of_set)
next
  case False
  show ?thesis
  proof (cases "NumberLutsByLevel luts")
    case (Inl e)
    with False assms show ?thesis by (simp add: find_candidates_def)
  next
    case (Inr lv)
    with False assms have
      "candidates = priority_queue_of (FindMergeCandidates_Layered luts (partition_levels (levels lv) (length luts)))"
      by (simp add: find_candidates_def)
    then show ?thesis
      using FindMergeCandidates_Layered_indices by (simp add: priority_queue_of_set)
  qed
qed

lemma CollectLuts_cell_ptr:
  "CollectLuts sigmap module = Inr luts \<Longrightarrow>
   map cell_ptr luts = map name_c (filter (\<lambda>cell. is_lut_type (type_c cell)) module)"
proof (induction module arbitrary: luts)
  case Nil
  then show ?case by simp
next
  case (Cons cell cells)
  show ?case
  proof (cases "is_lut_type (type_c cell)")
    case True
    with Cons.prems obtain info rest where i: "collect_cell sigmap cell = Inr info"
      and r: "CollectLuts sigmap cells = Inr rest" and l: "luts = info # rest"
      by (auto split: sum.splits)
    from i have "cell_ptr info = name_c cell"
      by (auto simp: collect_cell_def Let_def split: option.splits)
    with Cons.IH [OF r] True l show ?thesis by simp
  next
    case False
    with Cons.prems Cons.IH show ?thesis by simp
  qed
qed


end
